theory Spec2Isabelle
  imports Main "HOL-Library.Word"
begin

section \<open>Data model of \<open>ordered_map.h\<close>\<close>

text \<open>
  The header defines two class templates: \<open>compare_helper<Key, Index, Compare>\<close> and
  \<open>ordered_map<Key, T, Index, Compare, Allocator>\<close>. The development fixes the default
  template arguments \<open>Index = uint64_t\<close> and \<open>Compare = std::less<Index>\<close>; \<open>Key\<close> and
  \<open>T\<close> stay type variables \<open>'k\<close> and \<open>'v\<close>.

  An \<open>ordered_map\<close> object has four data members (lines 275-278): the Ledger \<open>keys_\<close>, the
  comparator \<open>compare_\<close>, the Store \<open>map_\<close> and the counter \<open>index_\<close>. The comparator holds a
  raw pointer to a Ledger (line 47), so objects live in a heap indexed by
  addresses, and a comparator is the address of the object whose \<open>keys_\<close> member it points to.
  A record field cannot end in an underscore, so the members are written \<open>keys_m\<close>,
  \<open>compare_m\<close>, \<open>map_m\<close> and \<open>index_m\<close>.
\<close>

type_synonym Index = "64 word"

type_synonym addr = nat

text \<open>
  \<open>KeyContainer = std::map<Key, Index>\<close> (line 62), ordered by \<open>std::less<Key>\<close>. The
  header only ever calls \<open>find\<close>, \<open>insert\<close>, \<open>erase\<close>, \<open>clear\<close> and \<open>size\<close> on it and never
  iterates over it, so it is kept as an association list with one entry per key; the
  position of an entry inside the list has no meaning. Two keys that \<open>std::less<Key>\<close>
  does not tell apart are one key to a \<open>std::map\<close>; here they are equal.
\<close>

type_synonym 'k KeyContainer = "('k \<times> Index) list"

text \<open>
  \<open>InnerMapType = std::map<Key, T, CompareHelper, Allocator>\<close> (line 61): the comparator copy
  the map owns, and the entries in the order in which \<open>begin()\<close> .. \<open>end()\<close> traverses them.
  An iterator is a position in that sequence; position \<open>length entries\<close> is \<open>end()\<close>.
\<close>

record ('k, 'v) InnerMapType =
  key_comp :: addr
  entries :: "('k \<times> 'v) list"

record ('k, 'v) ordered_map =
  keys_m :: "'k KeyContainer"
  compare_m :: addr
  map_m :: "('k, 'v) InnerMapType"
  index_m :: Index

type_synonym ('k, 'v) heap = "addr \<Rightarrow> ('k, 'v) ordered_map"

text \<open>
  \<open>Out_Of_Range\<close> is the exception \<open>std::out_of_range\<close>. \<open>Undefined_Behaviour\<close> stands for
  every execution the C++ standard gives no meaning to: dereferencing the \<open>end()\<close> iterator
  of a map, erasing through an iterator that is not dereferenceable, writing past the end
  of a vector.
\<close>

datatype failure = Out_Of_Range | Undefined_Behaviour

section \<open>The Ledger: \<open>std::map<Key, Index>\<close>\<close>

definition keys_find :: "'k KeyContainer \<Rightarrow> 'k \<Rightarrow> Index option" where
  "keys_find ks key = map_of ks key"

text \<open>\<open>std::map::insert\<close> leaves the map as it is when the key is already there.\<close>

definition keys_insert :: "'k KeyContainer \<Rightarrow> 'k \<times> Index \<Rightarrow> 'k KeyContainer" where
  "keys_insert ks e = (if keys_find ks (fst e) = None then ks @ [e] else ks)"

definition keys_erase :: "'k KeyContainer \<Rightarrow> 'k \<Rightarrow> 'k KeyContainer" where
  "keys_erase ks key = filter (\<lambda>e. fst e \<noteq> key) ks"

section \<open>\<open>compare_helper::operator()\<close> (lines 38-44)\<close>

text \<open>
  Both keys are looked up in the Ledger the helper points to, and both results are
  dereferenced without a test against \<open>end()\<close>: when either key is missing the call has
  no defined result, which is \<open>None\<close> here. Otherwise \<open>cmp_\<close>, which is \<open>std::less<Index>\<close>,
  compares the two sequence numbers.
\<close>

definition compare_helper :: "'k KeyContainer \<Rightarrow> 'k \<Rightarrow> 'k \<Rightarrow> bool option" where
  "compare_helper ks lhs rhs =
     (case keys_find ks lhs of
        None \<Rightarrow> None
      | Some l \<Rightarrow> (case keys_find ks rhs of
          None \<Rightarrow> None
        | Some r \<Rightarrow> Some (l < r)))"

section \<open>The Store: \<open>std::map\<close> with a comparator that may fail\<close>

text \<open>
  \<open>std::map\<close> belongs to the C++ standard library, not to the header. It is modelled by
  the sequence of its entries in comparator order together with the searches of the GNU
  implementation (\<open>_Rb_tree\<close> in \<open>bits/stl_tree.h\<close>), each written as a scan of that
  sequence:
  \<^item> \<open>_M_lower_bound\<close> evaluates \<open>cmp (key x) k\<close> on the nodes it visits and returns the
    first entry for which it is false;
  \<^item> \<open>_M_upper_bound\<close> and \<open>_M_get_insert_unique_pos\<close> evaluate \<open>cmp k (key x)\<close> and
    return the first entry for which it is true.
  Every comparison a search makes has the searched key as one argument and a key held by
  the map as the other. Which of the held keys a balanced tree visits depends on its
  shape, which is not modelled: the scan compares with the entries in sequence order up
  to the answer. On a sequence that is sorted by the comparator, with every key held by
  the map in the Ledger the comparator reads, the scan and the descent of a tree agree on
  the answer and on whether some comparison is undefined; a search in a non-empty map for
  a key missing from that Ledger is undefined in both. On a sequence that is not sorted by
  the Ledger its comparator reads, as \<open>swap\<close> can leave it, a descent may give another
  answer than the scan; no search is evaluated on such a sequence below.
\<close>

type_synonym 'k comparator = "'k \<Rightarrow> 'k \<Rightarrow> bool option"

fun lower_bound_pos :: "'k comparator \<Rightarrow> ('k \<times> 'v) list \<Rightarrow> 'k \<Rightarrow> nat option" where
  "lower_bound_pos cmp [] k = Some 0"
| "lower_bound_pos cmp (x # xs) k =
     (case cmp (fst x) k of
        None \<Rightarrow> None
      | Some False \<Rightarrow> Some 0
      | Some True \<Rightarrow> map_option Suc (lower_bound_pos cmp xs k))"

fun upper_bound_pos :: "'k comparator \<Rightarrow> ('k \<times> 'v) list \<Rightarrow> 'k \<Rightarrow> nat option" where
  "upper_bound_pos cmp [] k = Some 0"
| "upper_bound_pos cmp (x # xs) k =
     (case cmp k (fst x) of
        None \<Rightarrow> None
      | Some True \<Rightarrow> Some 0
      | Some False \<Rightarrow> map_option Suc (upper_bound_pos cmp xs k))"

text \<open>
  \<open>_Rb_tree::find\<close>: \<open>j = _M_lower_bound(k)\<close>, then
  \<open>(j == end() || comp(k, key(j))) ? end() : j\<close>.
\<close>

definition tree_find :: "'k comparator \<Rightarrow> ('k \<times> 'v) list \<Rightarrow> 'k \<Rightarrow> nat option" where
  "tree_find cmp es k =
     (case lower_bound_pos cmp es k of
        None \<Rightarrow> None
      | Some j \<Rightarrow>
          if j = length es then Some (length es)
          else (case cmp k (fst (es ! j)) of
                  None \<Rightarrow> None
                | Some True \<Rightarrow> Some (length es)
                | Some False \<Rightarrow> Some j))"

text \<open>
  \<open>_M_insert_unique\<close> through \<open>_M_get_insert_unique_pos\<close>: the descent ends at the upper
  bound \<open>p\<close> of the key; when that is \<open>begin()\<close> the entry goes to the front; otherwise the
  predecessor \<open>j\<close> is compared with the key, \<open>comp(key(j), k)\<close>: true inserts before \<open>p\<close>,
  false means an equivalent key is already at \<open>j\<close> and nothing is inserted. The result is the
  new sequence, the position of the entry with that key, and whether it was inserted.
\<close>

definition tree_insert_unique ::
  "'k comparator \<Rightarrow> ('k \<times> 'v) list \<Rightarrow> 'k \<times> 'v \<Rightarrow> (('k \<times> 'v) list \<times> nat \<times> bool) option" where
  "tree_insert_unique cmp es v =
     (case upper_bound_pos cmp es (fst v) of
        None \<Rightarrow> None
      | Some p \<Rightarrow>
          if p = 0 then Some (v # es, 0, True)
          else (case cmp (fst (es ! (p - 1))) (fst v) of
                  None \<Rightarrow> None
                | Some True \<Rightarrow> Some (take p es @ v # drop p es, p, True)
                | Some False \<Rightarrow> Some (es, p - 1, False)))"

text \<open>\<open>equal_range\<close> is the pair of \<open>lower_bound\<close> and \<open>upper_bound\<close>.\<close>

definition tree_equal_range ::
  "'k comparator \<Rightarrow> ('k \<times> 'v) list \<Rightarrow> 'k \<Rightarrow> (nat \<times> nat) option" where
  "tree_equal_range cmp es k =
     (case lower_bound_pos cmp es k of
        None \<Rightarrow> None
      | Some lo \<Rightarrow> (case upper_bound_pos cmp es k of
          None \<Rightarrow> None
        | Some hi \<Rightarrow> Some (lo, hi)))"

text \<open>
  \<open>std::map::erase(const key_type&)\<close>: the entries in \<open>equal_range(k)\<close> are destroyed and
  their number is returned. The result is the new sequence, that number, and the position
  the first destroyed entry had.
\<close>

definition tree_erase_key ::
  "'k comparator \<Rightarrow> ('k \<times> 'v) list \<Rightarrow> 'k \<Rightarrow> (('k \<times> 'v) list \<times> nat \<times> nat) option" where
  "tree_erase_key cmp es k =
     (case tree_equal_range cmp es k of
        None \<Rightarrow> None
      | Some (lo, hi) \<Rightarrow> Some (take lo es @ drop hi es, hi - lo, lo))"

text \<open>
  \<open>std::map::at\<close>: \<open>i = lower_bound(k)\<close>; \<open>std::out_of_range\<close> is thrown when
  \<open>i == end() || key_comp()(k, i->first)\<close>, otherwise \<open>i->second\<close> is returned.
\<close>

definition tree_at :: "'k comparator \<Rightarrow> ('k \<times> 'v) list \<Rightarrow> 'k \<Rightarrow> failure + 'v" where
  "tree_at cmp es k =
     (case lower_bound_pos cmp es k of
        None \<Rightarrow> Inl Undefined_Behaviour
      | Some i \<Rightarrow>
          if i = length es then Inl Out_Of_Range
          else (case cmp k (fst (es ! i)) of
                  None \<Rightarrow> Inl Undefined_Behaviour
                | Some True \<Rightarrow> Inl Out_Of_Range
                | Some False \<Rightarrow> Inr (snd (es ! i))))"

text \<open>
  \<open>std::map::operator[]\<close>: \<open>i = lower_bound(k)\<close>; when
  \<open>i == end() || key_comp()(k, i->first)\<close> an entry with a value-initialised \<open>T\<close> (the
  argument \<open>dflt\<close>) is emplaced with the hint \<open>i\<close>, which puts it right before \<open>i\<close>. The result
  is the new sequence and the position of the entry for \<open>k\<close>.
\<close>

definition tree_subscript ::
  "'k comparator \<Rightarrow> 'v \<Rightarrow> ('k \<times> 'v) list \<Rightarrow> 'k \<Rightarrow> (('k \<times> 'v) list \<times> nat) option" where
  "tree_subscript cmp dflt es k =
     (case lower_bound_pos cmp es k of
        None \<Rightarrow> None
      | Some i \<Rightarrow>
          if i = length es then Some (es @ [(k, dflt)], i)
          else (case cmp k (fst (es ! i)) of
                  None \<Rightarrow> None
                | Some True \<Rightarrow> Some (take i es @ (k, dflt) # drop i es, i)
                | Some False \<Rightarrow> Some (es, i)))"

text \<open>
  \<open>insert(first, last)\<close>: the elements of the range are inserted front to back, each by a
  unique insertion (to which the GNU implementation passes \<open>end()\<close> as a hint).
\<close>

fun tree_insert_range ::
  "'k comparator \<Rightarrow> ('k \<times> 'v) list \<Rightarrow> ('k \<times> 'v) list \<Rightarrow> ('k \<times> 'v) list option" where
  "tree_insert_range cmp es [] = Some es"
| "tree_insert_range cmp es (v # vs) =
     (case tree_insert_unique cmp es v of
        None \<Rightarrow> None
      | Some (es', _, _) \<Rightarrow> tree_insert_range cmp es' vs)"

section \<open>\<open>ordered_map\<close>\<close>

text \<open>
  Every member function takes the heap \<open>h\<close> and the address \<open>this\<close> of the object it is
  called on. A mutator returns the new heap and its C++ result, or a \<open>failure\<close>.

  Overloads get one name each, and names of library constants are avoided: \<open>insert\<close> is
  \<open>insert_value\<close>, \<open>insert_hint\<close> and \<open>insert_range\<close>; \<open>erase\<close> is \<open>erase_pos\<close>,
  \<open>erase_range\<close> and \<open>erase_key\<close>; \<open>operator[]\<close> is \<open>subscript\<close>; \<open>find\<close>, \<open>count\<close>, \<open>size\<close>,
  \<open>empty\<close> and \<open>swap\<close> are \<open>find_key\<close>, \<open>count_key\<close>, \<open>size_map\<close>, \<open>empty_map\<close> and
  \<open>swap_with\<close>; the constructors are \<open>ordered_map_new\<close> and \<open>ordered_map_from\<close>.
\<close>

text \<open>
  The comparator the Store of \<open>this\<close> calls: the copy inside \<open>map_\<close>, reading the Ledger of
  the object it points to, as that Ledger is in \<open>h\<close> at the time of the call.
\<close>

definition key_compare :: "('k, 'v) heap \<Rightarrow> addr \<Rightarrow> 'k comparator" where
  "key_compare h this = compare_helper (keys_m (h (key_comp (map_m (h this)))))"

definition set_entries :: "('k, 'v) heap \<Rightarrow> addr \<Rightarrow> ('k \<times> 'v) list \<Rightarrow> ('k, 'v) heap" where
  "set_entries h this es = h(this := (h this)\<lparr>map_m := (map_m (h this))\<lparr>entries := es\<rparr>\<rparr>)"

text \<open>
  Lines 272-273. \<open>index_++\<close> is evaluated to build the argument of \<open>keys_.insert\<close>, so the
  counter advances whether or not the Ledger takes the entry.
\<close>

definition add_index :: "('k, 'v) heap \<Rightarrow> addr \<Rightarrow> 'k \<Rightarrow> ('k, 'v) heap" where
  "add_index h this key =
     h(this := (h this)\<lparr>keys_m := keys_insert (keys_m (h this)) (key, index_m (h this)),
                        index_m := index_m (h this) + 1\<rparr>)"

definition remove_index :: "('k, 'v) heap \<Rightarrow> addr \<Rightarrow> 'k \<Rightarrow> ('k, 'v) heap" where
  "remove_index h this key = h(this := (h this)\<lparr>keys_m := keys_erase (keys_m (h this)) key\<rparr>)"

text \<open>
  The default constructor (lines 82-87): \<open>keys_{}\<close>, \<open>compare_{&keys_}\<close>, \<open>map_{compare_}\<close>,
  and \<open>index_m = 0\<close> from the member initialiser of line 278.
\<close>

definition ordered_map_new :: "('k, 'v) heap \<Rightarrow> addr \<Rightarrow> ('k, 'v) heap" where
  "ordered_map_new h this =
     h(this := \<lparr>keys_m = [], compare_m = this,
                map_m = \<lparr>key_comp = this, entries = []\<rparr>, index_m = 0\<rparr>)"

text \<open>Lines 159-163 (and 165-170, which differ in value category only).\<close>

definition insert_value ::
  "('k, 'v) heap \<Rightarrow> addr \<Rightarrow> 'k \<times> 'v \<Rightarrow> failure + ('k, 'v) heap \<times> nat \<times> bool" where
  "insert_value h this v =
     (let h1 = add_index h this (fst v) in
      case tree_insert_unique (key_compare h1 this) (entries (map_m (h1 this))) v of
        None \<Rightarrow> Inl Undefined_Behaviour
      | Some (es, pos, inserted) \<Rightarrow> Inr (set_entries h1 this es, pos, inserted))"

text \<open>
  Lines 172-182. The hint has to be an iterator of \<open>map_\<close>. The standard lets a hint
  change where the search starts, not what is inserted or where, so the Store step is
  that of \<open>insert_value\<close>; only the iterator is returned.
\<close>

definition insert_hint ::
  "('k, 'v) heap \<Rightarrow> addr \<Rightarrow> nat \<Rightarrow> 'k \<times> 'v \<Rightarrow> failure + ('k, 'v) heap \<times> nat" where
  "insert_hint h this hint v =
     (let h1 = add_index h this (fst v) in
      if length (entries (map_m (h1 this))) < hint then Inl Undefined_Behaviour
      else case tree_insert_unique (key_compare h1 this) (entries (map_m (h1 this))) v of
        None \<Rightarrow> Inl Undefined_Behaviour
      | Some (es, pos, inserted) \<Rightarrow> Inr (set_entries h1 this es, pos))"

text \<open>
  Lines 184-197: first one \<open>add_index\<close> per element of the range, then the whole range
  goes to \<open>map_.insert\<close>.
\<close>

definition add_indexes :: "('k, 'v) heap \<Rightarrow> addr \<Rightarrow> 'k list \<Rightarrow> ('k, 'v) heap" where
  "add_indexes h this ks = foldl (\<lambda>h' k. add_index h' this k) h ks"

definition insert_range ::
  "('k, 'v) heap \<Rightarrow> addr \<Rightarrow> ('k \<times> 'v) list \<Rightarrow> failure + ('k, 'v) heap" where
  "insert_range h this vs =
     (let h1 = add_indexes h this (map fst vs) in
      case tree_insert_range (key_compare h1 this) (entries (map_m (h1 this))) vs of
        None \<Rightarrow> Inl Undefined_Behaviour
      | Some es \<Rightarrow> Inr (set_entries h1 this es))"

text \<open>Lines 199-213: the pair is built from the arguments, then as \<open>insert\<close>.\<close>

definition emplace ::
  "('k, 'v) heap \<Rightarrow> addr \<Rightarrow> 'k \<Rightarrow> 'v \<Rightarrow> failure + ('k, 'v) heap \<times> nat \<times> bool" where
  "emplace h this k x = insert_value h this (k, x)"

definition emplace_hint ::
  "('k, 'v) heap \<Rightarrow> addr \<Rightarrow> nat \<Rightarrow> 'k \<Rightarrow> 'v \<Rightarrow> failure + ('k, 'v) heap \<times> nat" where
  "emplace_hint h this hint k x = insert_hint h this hint (k, x)"

text \<open>
  \<open>operator[]\<close> (lines 109-119). \<open>dflt\<close> is the value-initialised \<open>T\<close>. The reference the
  C++ returns is the position of the entry.
\<close>

definition subscript ::
  "'v \<Rightarrow> ('k, 'v) heap \<Rightarrow> addr \<Rightarrow> 'k \<Rightarrow> failure + ('k, 'v) heap \<times> nat" where
  "subscript dflt h this key =
     (let h1 = add_index h this key in
      case tree_subscript (key_compare h1 this) dflt (entries (map_m (h1 this))) key of
        None \<Rightarrow> Inl Undefined_Behaviour
      | Some (es, pos) \<Rightarrow> Inr (set_entries h1 this es, pos))"

text \<open>Lines 106-107.\<close>

definition at :: "('k, 'v) heap \<Rightarrow> addr \<Rightarrow> 'k \<Rightarrow> failure + 'v" where
  "at h this key = tree_at (key_compare h this) (entries (map_m (h this))) key"

text \<open>
  \<open>begin()\<close> .. \<open>end()\<close> (lines 132-135): the entries an iteration visits, in its order.
\<close>

definition iterate :: "('k, 'v) heap \<Rightarrow> addr \<Rightarrow> ('k \<times> 'v) list" where
  "iterate h this = entries (map_m (h this))"

definition end_pos :: "('k, 'v) heap \<Rightarrow> addr \<Rightarrow> nat" where
  "end_pos h this = length (entries (map_m (h this)))"

text \<open>Lines 149-150.\<close>

definition empty_map :: "('k, 'v) heap \<Rightarrow> addr \<Rightarrow> bool" where
  "empty_map h this = (entries (map_m (h this)) = [])"

definition size_map :: "('k, 'v) heap \<Rightarrow> addr \<Rightarrow> nat" where
  "size_map h this = length (entries (map_m (h this)))"

text \<open>
  \<open>keys()\<close> (lines 121-130): a vector of \<open>keys_.size()\<close> value-initialised keys (\<open>dkey\<close>),
  over whose front \<open>std::transform\<close> writes the first component of every entry from
  \<open>begin()\<close> to \<open>end()\<close>. With more entries than Ledger entries the writes run past the end
  of the vector.
\<close>

definition keys :: "'k \<Rightarrow> ('k, 'v) heap \<Rightarrow> addr \<Rightarrow> failure + 'k list" where
  "keys dkey h this =
     (let n = length (keys_m (h this));
          src = map fst (iterate h this)
      in if length src \<le> n then Inr (src @ replicate (n - length src) dkey)
         else Inl Undefined_Behaviour)"

text \<open>Lines 153-157. \<open>index_\<close> is not touched.\<close>

definition clear :: "('k, 'v) heap \<Rightarrow> addr \<Rightarrow> ('k, 'v) heap" where
  "clear h this =
     (let h1 = set_entries h this []
      in h1(this := (h1 this)\<lparr>keys_m := []\<rparr>))"

text \<open>
  \<open>erase(const_iterator pos)\<close> (lines 215-219) reads \<open>pos->first\<close>, so \<open>pos\<close> has to be
  dereferenceable. The iterator returned follows the erased entry: the same position.
\<close>

definition erase_pos :: "('k, 'v) heap \<Rightarrow> addr \<Rightarrow> nat \<Rightarrow> failure + ('k, 'v) heap \<times> nat" where
  "erase_pos h this pos =
     (let es = entries (map_m (h this)) in
      if length es \<le> pos then Inl Undefined_Behaviour
      else let h1 = remove_index h this (fst (es ! pos))
           in Inr (set_entries h1 this (take pos es @ drop (Suc pos) es), pos))"

text \<open>\<open>erase(first, last)\<close> (lines 221-226) on a valid range of \<open>map_\<close>.\<close>

definition remove_indexes :: "('k, 'v) heap \<Rightarrow> addr \<Rightarrow> 'k list \<Rightarrow> ('k, 'v) heap" where
  "remove_indexes h this ks = foldl (\<lambda>h' k. remove_index h' this k) h ks"

definition erase_range ::
  "('k, 'v) heap \<Rightarrow> addr \<Rightarrow> nat \<Rightarrow> nat \<Rightarrow> failure + ('k, 'v) heap \<times> nat" where
  "erase_range h this first lst =
     (let es = entries (map_m (h this)) in
      if lst < first \<or> length es < lst then Inl Undefined_Behaviour
      else let h1 = remove_indexes h this (map fst (take (lst - first) (drop first es)))
           in Inr (set_entries h1 this (take first es @ drop lst es), first))"

text \<open>
  \<open>erase(const key_type& key)\<close> (lines 228-234) takes a reference and reads through it
  twice: in \<open>map_.erase(key)\<close> (line 230) and, when that removed something, in
  \<open>remove_index(key)\<close> (line 232). What the reference refers to matters, because line 230
  destroys entries of the Store:
  \<^item> \<open>Object k\<close>: an object outside the map that holds the key \<open>k\<close>, as in \<open>m.erase("a")\<close>;
  \<^item> \<open>Entry_Key p\<close>: the key inside the Store entry at position \<open>p\<close>, as in
    \<open>m.erase(it->first)\<close>.
  The other members that take a key or an entry by reference read it only while every
  entry is alive, so they take the value.
\<close>

datatype 'k key_ref = Object 'k | Entry_Key nat

text \<open>The key read through a reference; a position past the end is no entry.\<close>

definition referent :: "('k \<times> 'v) list \<Rightarrow> 'k key_ref \<Rightarrow> 'k option" where
  "referent es r =
     (case r of
        Object k \<Rightarrow> Some k
      | Entry_Key p \<Rightarrow> if p < length es then Some (fst (es ! p)) else None)"

text \<open>
  Whether the referent is among the \<open>res\<close> entries destroyed from position \<open>lo\<close> on.
\<close>

definition destroyed :: "'k key_ref \<Rightarrow> nat \<Rightarrow> nat \<Rightarrow> bool" where
  "destroyed r lo res =
     (case r of
        Object k \<Rightarrow> False
      | Entry_Key p \<Rightarrow> lo \<le> p \<and> p < lo + res)"

text \<open>
  The Store first, the Ledger only when the Store removed something. When the entry the
  reference points into has been destroyed by then, line 232 reads a destroyed object.
\<close>

definition erase_key ::
  "('k, 'v) heap \<Rightarrow> addr \<Rightarrow> 'k key_ref \<Rightarrow> failure + ('k, 'v) heap \<times> nat" where
  "erase_key h this r =
     (case referent (entries (map_m (h this))) r of
        None \<Rightarrow> Inl Undefined_Behaviour
      | Some key \<Rightarrow>
          (case tree_erase_key (key_compare h this) (entries (map_m (h this))) key of
             None \<Rightarrow> Inl Undefined_Behaviour
           | Some (es, res, lo) \<Rightarrow>
               let h1 = set_entries h this es
               in if 0 < res
                  then (if destroyed r lo res then Inl Undefined_Behaviour
                        else Inr (remove_index h1 this key, res))
                  else Inr (h1, res)))"

text \<open>Lines 243-260.\<close>

definition find_key :: "('k, 'v) heap \<Rightarrow> addr \<Rightarrow> 'k \<Rightarrow> failure + nat" where
  "find_key h this key =
     (case tree_find (key_compare h this) (entries (map_m (h this))) key of
        None \<Rightarrow> Inl Undefined_Behaviour
      | Some pos \<Rightarrow> Inr pos)"

text \<open>\<open>std::map::count\<close> is \<open>find(k) == end() ? 0 : 1\<close>.\<close>

definition count_key :: "('k, 'v) heap \<Rightarrow> addr \<Rightarrow> 'k \<Rightarrow> failure + nat" where
  "count_key h this key =
     (case find_key h this key of
        Inl e \<Rightarrow> Inl e
      | Inr pos \<Rightarrow> Inr (if pos = end_pos h this then 0 else 1))"

definition lower_bound :: "('k, 'v) heap \<Rightarrow> addr \<Rightarrow> 'k \<Rightarrow> failure + nat" where
  "lower_bound h this key =
     (case lower_bound_pos (key_compare h this) (entries (map_m (h this))) key of
        None \<Rightarrow> Inl Undefined_Behaviour
      | Some pos \<Rightarrow> Inr pos)"

definition upper_bound :: "('k, 'v) heap \<Rightarrow> addr \<Rightarrow> 'k \<Rightarrow> failure + nat" where
  "upper_bound h this key =
     (case upper_bound_pos (key_compare h this) (entries (map_m (h this))) key of
        None \<Rightarrow> Inl Undefined_Behaviour
      | Some pos \<Rightarrow> Inr pos)"

definition equal_range :: "('k, 'v) heap \<Rightarrow> addr \<Rightarrow> 'k \<Rightarrow> failure + nat \<times> nat" where
  "equal_range h this key =
     (case tree_equal_range (key_compare h this) (entries (map_m (h this))) key of
        None \<Rightarrow> Inl Undefined_Behaviour
      | Some r \<Rightarrow> Inr r)"

text \<open>
  \<open>swap\<close> (lines 236-241): three \<open>std::swap\<close> calls, on \<open>map_\<close>, on \<open>compare_\<close> and on
  \<open>keys_\<close>, in this order. Swapping two \<open>std::map\<close>s exchanges their entries and their
  comparison objects; swapping two \<open>compare_helper\<close>s exchanges the pointers they hold.
  \<open>index_\<close> is not swapped.
\<close>

definition swap_map_m :: "('k, 'v) heap \<Rightarrow> addr \<Rightarrow> addr \<Rightarrow> ('k, 'v) heap" where
  "swap_map_m h this other =
     h(this := (h this)\<lparr>map_m := map_m (h other)\<rparr>, other := (h other)\<lparr>map_m := map_m (h this)\<rparr>)"

definition swap_compare_m :: "('k, 'v) heap \<Rightarrow> addr \<Rightarrow> addr \<Rightarrow> ('k, 'v) heap" where
  "swap_compare_m h this other =
     h(this := (h this)\<lparr>compare_m := compare_m (h other)\<rparr>,
       other := (h other)\<lparr>compare_m := compare_m (h this)\<rparr>)"

definition swap_keys_m :: "('k, 'v) heap \<Rightarrow> addr \<Rightarrow> addr \<Rightarrow> ('k, 'v) heap" where
  "swap_keys_m h this other =
     h(this := (h this)\<lparr>keys_m := keys_m (h other)\<rparr>, other := (h other)\<lparr>keys_m := keys_m (h this)\<rparr>)"

definition swap_with :: "('k, 'v) heap \<Rightarrow> addr \<Rightarrow> addr \<Rightarrow> ('k, 'v) heap" where
  "swap_with h this other =
     swap_keys_m (swap_compare_m (swap_map_m h this other) this other) this other"

text \<open>
  The constructors from a range and from an initialiser list (lines 89-104): the default
  construction, then \<open>insert\<close> for each element.
\<close>

fun insert_each ::
  "('k, 'v) heap \<Rightarrow> addr \<Rightarrow> ('k \<times> 'v) list \<Rightarrow> failure + ('k, 'v) heap" where
  "insert_each h this [] = Inr h"
| "insert_each h this (v # vs) =
     (case insert_value h this v of
        Inl e \<Rightarrow> Inl e
      | Inr (h', _) \<Rightarrow> insert_each h' this vs)"

definition ordered_map_from ::
  "('k, 'v) heap \<Rightarrow> addr \<Rightarrow> ('k \<times> 'v) list \<Rightarrow> failure + ('k, 'v) heap" where
  "ordered_map_from h this init = insert_each (ordered_map_new h this) this init"

section \<open>Sequences of calls on one object\<close>

text \<open>
  The mutating members, as values, so that a history of an object is a list. Iterators
  are positions; \<open>Insert_Range\<close> stands for both range forms of \<open>insert\<close> (iterator pair and
  initialiser list), \<open>Insert\<close> for both single-value forms.
\<close>

datatype ('k, 'v) call =
    Insert "'k \<times> 'v"
  | Insert_Hint nat "'k \<times> 'v"
  | Insert_Range "('k \<times> 'v) list"
  | Emplace 'k 'v
  | Emplace_Hint nat 'k 'v
  | Subscript 'k
  | Erase_Pos nat
  | Erase_Range nat nat
  | Erase_Key "'k key_ref"
  | Clear

definition state_of :: "failure + ('k, 'v) heap \<times> 'r \<Rightarrow> failure + ('k, 'v) heap" where
  "state_of r = (case r of Inl e \<Rightarrow> Inl e | Inr (h, _) \<Rightarrow> Inr h)"

fun exec :: "'v \<Rightarrow> ('k, 'v) heap \<Rightarrow> addr \<Rightarrow> ('k, 'v) call \<Rightarrow> failure + ('k, 'v) heap" where
  "exec dflt h this (Insert v) = state_of (insert_value h this v)"
| "exec dflt h this (Insert_Hint hint v) = state_of (insert_hint h this hint v)"
| "exec dflt h this (Insert_Range vs) = insert_range h this vs"
| "exec dflt h this (Emplace k x) = state_of (emplace h this k x)"
| "exec dflt h this (Emplace_Hint hint k x) = state_of (emplace_hint h this hint k x)"
| "exec dflt h this (Subscript k) = state_of (subscript dflt h this k)"
| "exec dflt h this (Erase_Pos pos) = state_of (erase_pos h this pos)"
| "exec dflt h this (Erase_Range first lst) = state_of (erase_range h this first lst)"
| "exec dflt h this (Erase_Key r) = state_of (erase_key h this r)"
| "exec dflt h this Clear = Inr (clear h this)"

text \<open>A history stops at the first call that fails.\<close>

fun run :: "'v \<Rightarrow> ('k, 'v) heap \<Rightarrow> addr \<Rightarrow> ('k, 'v) call list \<Rightarrow> failure + ('k, 'v) heap" where
  "run dflt h this [] = Inr h"
| "run dflt h this (c # cs) =
     (case exec dflt h this c of
        Inl e \<Rightarrow> Inl e
      | Inr h' \<Rightarrow> run dflt h' this cs)"

text \<open>How many times a call evaluates \<open>add_index\<close>, that is \<open>index_++\<close>.\<close>

fun attempts :: "('k, 'v) call \<Rightarrow> nat" where
  "attempts (Insert v) = 1"
| "attempts (Insert_Hint hint v) = 1"
| "attempts (Insert_Range vs) = length vs"
| "attempts (Emplace k x) = 1"
| "attempts (Emplace_Hint hint k x) = 1"
| "attempts (Subscript k) = 1"
| "attempts (Erase_Pos pos) = 0"
| "attempts (Erase_Range first lst) = 0"
| "attempts (Erase_Key r) = 0"
| "attempts Clear = 0"

fun total_attempts :: "('k, 'v) call list \<Rightarrow> nat" where
  "total_attempts [] = 0"
| "total_attempts (c # cs) = attempts c + total_attempts cs"

section \<open>Invariants\<close>

text \<open>The sequence number the Ledger holds for a key that is in it.\<close>

definition seq_of :: "'k KeyContainer \<Rightarrow> 'k \<Rightarrow> Index" where
  "seq_of ks k = the (keys_find ks k)"

text \<open>Every key of the Store can be resolved by the comparator.\<close>

definition resolved :: "'k KeyContainer \<Rightarrow> ('k \<times> 'v) list \<Rightarrow> bool" where
  "resolved ks es = (\<forall>e \<in> set es. keys_find ks (fst e) \<noteq> None)"

text \<open>The Store is traversed in strictly ascending order of sequence numbers.\<close>

definition in_order :: "'k KeyContainer \<Rightarrow> ('k \<times> 'v) list \<Rightarrow> bool" where
  "in_order ks es = sorted_wrt (<) (map (\<lambda>e. seq_of ks (fst e)) es)"

text \<open>
  One Ledger entry per key, no sequence number held twice, and every number held is
  below the counter \<open>n\<close>.
\<close>

definition ledger_ok :: "'k KeyContainer \<Rightarrow> Index \<Rightarrow> bool" where
  "ledger_ok ks n \<longleftrightarrow>
     distinct (map fst ks) \<and> distinct (map snd ks) \<and> (\<forall>e \<in> set ks. snd e < n)"

text \<open>Both comparators of the object at \<open>a\<close> point to the Ledger of the object at \<open>b\<close>.\<close>

definition bound_to :: "('k, 'v) heap \<Rightarrow> addr \<Rightarrow> addr \<Rightarrow> bool" where
  "bound_to h a b \<longleftrightarrow> compare_m (h a) = b \<and> key_comp (map_m (h a)) = b"

text \<open>The correspondence invariant: Ledger and Store hold the same keys.\<close>

definition correspondence :: "('k, 'v) heap \<Rightarrow> addr \<Rightarrow> bool" where
  "correspondence h a \<longleftrightarrow> fst ` set (keys_m (h a)) = fst ` set (entries (map_m (h a)))"

definition invar :: "('k, 'v) heap \<Rightarrow> addr \<Rightarrow> bool" where
  "invar h a \<longleftrightarrow>
     bound_to h a a \<and> ledger_ok (keys_m (h a)) (index_m (h a)) \<and> correspondence h a
     \<and> in_order (keys_m (h a)) (entries (map_m (h a)))"

text \<open>The heap with new contents of Ledger, Store and counter in the object at \<open>a\<close>.\<close>

definition put ::
  "('k, 'v) heap \<Rightarrow> addr \<Rightarrow> 'k KeyContainer \<Rightarrow> ('k \<times> 'v) list \<Rightarrow> Index \<Rightarrow> ('k, 'v) heap" where
  "put h a ks es n =
     h(a := (h a)\<lparr>keys_m := ks, map_m := (map_m (h a))\<lparr>entries := es\<rparr>, index_m := n\<rparr>)"

text \<open>
  From \<open>h\<close> to \<open>h'\<close> the Ledger of the object at \<open>a\<close> only gained entries whose sequence
  number is at least the counter of \<open>h\<close>.
\<close>

definition ledger_step :: "('k, 'v) heap \<Rightarrow> ('k, 'v) heap \<Rightarrow> addr \<Rightarrow> bool" where
  "ledger_step h h' a \<longleftrightarrow>
     (\<forall>e \<in> set (keys_m (h' a)). e \<in> set (keys_m (h a)) \<or> index_m (h a) \<le> snd e)"

text \<open>Storage in which no object has been constructed yet.\<close>

definition raw_storage :: "('k, 'v) heap" where
  "raw_storage =
     (\<lambda>_. \<lparr>keys_m = [], compare_m = 0, map_m = \<lparr>key_comp = 0, entries = []\<rparr>, index_m = 0\<rparr>)"

section \<open>The comparator on keys of the Ledger; the two scans\<close>

lemma compare_helper_found:
  "keys_find ks a \<noteq> None \<Longrightarrow> keys_find ks b \<noteq> None \<Longrightarrow>
   compare_helper ks a b = Some (seq_of ks a < seq_of ks b)"
  by (auto simp: compare_helper_def seq_of_def)

lemma compare_helper_lost_left: "keys_find ks a = None \<Longrightarrow> compare_helper ks a b = None"
  by (simp add: compare_helper_def)

lemma compare_helper_lost_right: "keys_find ks b = None \<Longrightarrow> compare_helper ks a b = None"
  by (simp add: compare_helper_def split: option.splits)

lemma lower_bound_pos_scan:
  "keys_find ks k \<noteq> None \<Longrightarrow> resolved ks es \<Longrightarrow>
   lower_bound_pos (compare_helper ks) es k =
     Some (length (takeWhile (\<lambda>e. seq_of ks (fst e) < seq_of ks k) es))"
  by (induction es) (auto simp: resolved_def compare_helper_found)

lemma upper_bound_pos_scan:
  "keys_find ks k \<noteq> None \<Longrightarrow> resolved ks es \<Longrightarrow>
   upper_bound_pos (compare_helper ks) es k =
     Some (length (takeWhile (\<lambda>e. \<not> seq_of ks k < seq_of ks (fst e)) es))"
  by (induction es) (auto simp: resolved_def compare_helper_found)

lemma sorted_takeWhile_less:
  fixes f :: "'a \<Rightarrow> 'b::linorder"
  assumes "sorted_wrt (<) (map f es)" "j < length es"
  shows "takeWhile (\<lambda>e. f e < f (es ! j)) es = take j es"
  using assms
proof (induction es arbitrary: j)
  case Nil then show ?case by simp
next
  case (Cons e es)
  show ?case
  proof (cases j)
    case 0 then show ?thesis by simp
  next
    case (Suc i)
    with Cons.prems have "f e < f (es ! i)" by auto
    with Cons Suc show ?thesis by simp
  qed
qed

lemma sorted_takeWhile_le:
  fixes f :: "'a \<Rightarrow> 'b::linorder"
  assumes "sorted_wrt (<) (map f es)" "j < length es"
  shows "takeWhile (\<lambda>e. \<not> f (es ! j) < f e) es = take (Suc j) es"
  using assms
proof (induction es arbitrary: j)
  case Nil then show ?case by simp
next
  case (Cons e es)
  show ?case
  proof (cases j)
    case 0
    with Cons.prems have "\<forall>x \<in> set es. f e < f x" by auto
    then have "takeWhile (\<lambda>x. \<not> f e < f x) es = []" by (cases es) auto
    with 0 show ?thesis by simp
  next
    case (Suc i)
    with Cons.prems have "f e < f (es ! i)" by auto
    then have "\<not> f (es ! i) < f e" by simp
    with Cons Suc show ?thesis by simp
  qed
qed

lemma takeWhile_all: "\<forall>x \<in> set xs. P x \<Longrightarrow> takeWhile P xs = xs"
  by (induction xs) auto

section \<open>Strictly ascending sequences\<close>

lemma sorted_wrt_less_nth:
  fixes f :: "'a \<Rightarrow> 'b::linorder"
  assumes "sorted_wrt (<) (map f es)" "i < j" "j < length es"
  shows "f (es ! i) < f (es ! j)"
proof -
  have "map f es ! i < map f es ! j"
    using assms by (intro sorted_wrt_nth_less) auto
  with assms show ?thesis by simp
qed

text \<open>Where the upper-bound scan stops in a strictly ascending sequence.\<close>

lemma scan_split:
  fixes f :: "'a \<Rightarrow> 'b::linorder" and c :: 'b
  assumes "sorted_wrt (<) (map f es)"
  defines "p \<equiv> length (takeWhile (\<lambda>e. \<not> c < f e) es)"
  shows "p \<le> length es"
    and "\<forall>e \<in> set (take p es). f e \<le> c"
    and "\<forall>e \<in> set (drop p es). c < f e"
proof -
  let ?P = "\<lambda>e. \<not> c < f e"
  show "p \<le> length es" unfolding p_def by (rule length_takeWhile_le)
  have tk: "take p es = takeWhile ?P es" unfolding p_def by (rule takeWhile_eq_take [symmetric])
  have dr: "drop p es = dropWhile ?P es" unfolding p_def by (rule dropWhile_eq_drop [symmetric])
  show "\<forall>e \<in> set (take p es). f e \<le> c"
    unfolding tk by (auto dest: set_takeWhileD)
  show "\<forall>e \<in> set (drop p es). c < f e"
  proof (cases "dropWhile ?P es")
    case Nil
    have "drop p es = []" unfolding dr Nil by simp
    then show ?thesis by simp
  next
    case (Cons y ys)
    then have y: "c < f y" using hd_dropWhile [of ?P es] by auto
    have "sorted_wrt (<) (map f (takeWhile ?P es @ dropWhile ?P es))" using assms(1) by simp
    then have "sorted_wrt (<) (map f (y # ys))"
      unfolding Cons by (simp add: sorted_wrt_append)
    then have "\<forall>e \<in> set ys. f y < f e" by auto
    with y show ?thesis unfolding dr Cons by auto
  qed
qed

lemma sorted_insert_mid:
  fixes f :: "'a \<Rightarrow> 'b::linorder"
  assumes srt: "sorted_wrt (<) (map f es)"
    and lo: "\<forall>e \<in> set (take p es). f e < f v"
    and hi: "\<forall>e \<in> set (drop p es). f v < f e"
  shows "sorted_wrt (<) (map f (take p es @ v # drop p es))"
proof -
  have "sorted_wrt (<) (map f (take p es @ drop p es))" using srt by simp
  then have "sorted_wrt (<) (map f (take p es))" "sorted_wrt (<) (map f (drop p es))"
    by (simp_all add: sorted_wrt_append del: append_take_drop_id)
  moreover have "\<forall>x \<in> set (take p es). \<forall>y \<in> set (drop p es). f x < f y"
    using lo hi by (blast intro: less_trans)
  ultimately show ?thesis using lo hi
    by (simp add: sorted_wrt_append)
qed

section \<open>Unique insertion into the Store\<close>

lemma seq_of_inject:
  assumes "distinct (map snd ks)" "keys_find ks a \<noteq> None" "keys_find ks b \<noteq> None"
    and "seq_of ks a = seq_of ks b"
  shows "a = b"
proof -
  from assms(2,3) obtain i j where ij: "map_of ks a = Some i" "map_of ks b = Some j"
    by (auto simp: keys_find_def)
  with assms(4) have "i = j" by (simp add: seq_of_def keys_find_def)
  with ij have "(a, i) \<in> set ks" "(b, i) \<in> set ks" by (auto dest: map_of_SomeD)
  moreover have "inj_on snd (set ks)" using assms(1) by (simp add: distinct_map)
  ultimately have "(a, i) = (b, i)"
    using inj_onD [of snd "set ks" "(a, i)" "(b, i)"] by simp
  then show ?thesis by simp
qed

lemma tree_insert_unique_new:
  assumes "keys_find ks (fst v) \<noteq> None" "resolved ks es"
    and "\<forall>e \<in> set es. seq_of ks (fst e) < seq_of ks (fst v)"
  shows "tree_insert_unique (compare_helper ks) es v = Some (es @ [v], length es, True)"
proof -
  have "\<forall>e \<in> set es. \<not> seq_of ks (fst v) < seq_of ks (fst e)"
    using assms(3) by (auto simp: not_less less_imp_le)
  then have "takeWhile (\<lambda>e. \<not> seq_of ks (fst v) < seq_of ks (fst e)) es = es"
    by (rule takeWhile_all)
  with upper_bound_pos_scan [OF assms(1,2)]
  have ub: "upper_bound_pos (compare_helper ks) es (fst v) = Some (length es)"
    by (simp only:)
  show ?thesis
  proof (cases "es = []")
    case True
    then show ?thesis by (simp add: tree_insert_unique_def)
  next
    case False
    then have "es ! (length es - 1) \<in> set es" by simp
    with assms have "compare_helper ks (fst (es ! (length es - 1))) (fst v) = Some True"
      by (simp add: compare_helper_found resolved_def)
    with False ub show ?thesis by (simp add: tree_insert_unique_def)
  qed
qed

lemma tree_insert_unique_present:
  assumes "resolved ks es" "in_order ks es" "j < length es" "fst (es ! j) = fst v"
  shows "tree_insert_unique (compare_helper ks) es v = Some (es, j, False)"
proof -
  have "es ! j \<in> set es" using assms(3) by simp
  with assms(1) have "keys_find ks (fst (es ! j)) \<noteq> None" by (simp add: resolved_def)
  with assms(4) have found: "keys_find ks (fst v) \<noteq> None" by simp
  have "takeWhile (\<lambda>e. \<not> seq_of ks (fst (es ! j)) < seq_of ks (fst e)) es = take (Suc j) es"
    using assms(2,3) unfolding in_order_def by (rule sorted_takeWhile_le)
  then have "upper_bound_pos (compare_helper ks) es (fst v) = Some (Suc j)"
    using assms found by (simp add: upper_bound_pos_scan min_absorb2 Suc_leI)
  moreover have "compare_helper ks (fst (es ! j)) (fst v) = Some False"
    using found assms(4) by (simp add: compare_helper_found)
  ultimately show ?thesis by (simp add: tree_insert_unique_def)
qed

lemma tree_insert_unique_sound:
  assumes found: "keys_find ks (fst v) \<noteq> None" and res: "resolved ks es"
    and ord: "in_order ks es" and inj: "distinct (map snd ks)"
  shows "\<exists>es' pos b. tree_insert_unique (compare_helper ks) es v = Some (es', pos, b)
           \<and> resolved ks es' \<and> in_order ks es'
           \<and> fst ` set es' = insert (fst v) (fst ` set es)"
proof -
  let ?f = "\<lambda>e. seq_of ks (fst e)"
  define p where "p = length (takeWhile (\<lambda>e. \<not> ?f v < ?f e) es)"
  have srt: "sorted_wrt (<) (map ?f es)" using ord by (simp add: in_order_def)
  have ub: "upper_bound_pos (compare_helper ks) es (fst v) = Some p"
    unfolding p_def using found res by (rule upper_bound_pos_scan)
  have ple: "p \<le> length es"
    unfolding p_def by (rule scan_split(1) [OF srt])
  have lo: "\<forall>e \<in> set (take p es). ?f e \<le> ?f v"
    unfolding p_def by (rule scan_split(2) [OF srt])
  have hi: "\<forall>e \<in> set (drop p es). ?f v < ?f e"
    unfolding p_def by (rule scan_split(3) [OF srt])
  show ?thesis
  proof (cases "p = 0")
    case True
    with hi have "\<forall>e \<in> set es. ?f v < ?f e" by simp
    with srt have "in_order ks (v # es)" by (simp add: in_order_def)
    moreover have "resolved ks (v # es)" using found res by (simp add: resolved_def)
    ultimately show ?thesis using True ub by (auto simp: tree_insert_unique_def)
  next
    case False
    define q where "q = es ! (p - 1)"
    have "take p es ! (p - 1) \<in> set (take p es)"
      using False ple by (intro nth_mem) simp
    then have qin: "q \<in> set (take p es)"
      using False by (simp add: q_def)
    then have qes: "q \<in> set es" by (rule in_set_takeD)
    then have qfound: "keys_find ks (fst q) \<noteq> None" using res by (simp add: resolved_def)
    have cmp: "compare_helper ks (fst q) (fst v) = Some (?f q < ?f v)"
      using qfound found by (simp add: compare_helper_found)
    show ?thesis
    proof (cases "?f q < ?f v")
      case True
      have "\<forall>e \<in> set (take p es). ?f e < ?f v"
      proof
        fix e assume "e \<in> set (take p es)"
        then obtain i where "i < length (take p es)" "take p es ! i = e"
          unfolding in_set_conv_nth by blast
        then have i: "i < p" "e = es ! i" by simp_all
        show "?f e < ?f v"
        proof (cases "i = p - 1")
          case True with i \<open>?f q < ?f v\<close> show ?thesis by (simp add: q_def)
        next
          case False
          with i have "i < p - 1" by simp
          then have "?f (es ! i) < ?f (es ! (p - 1))"
            using srt ple \<open>p \<noteq> 0\<close> by (intro sorted_wrt_less_nth) auto
          with i \<open>?f q < ?f v\<close> show ?thesis by (simp add: q_def)
        qed
      qed
      then have "sorted_wrt (<) (map ?f (take p es @ v # drop p es))"
        using srt hi by (intro sorted_insert_mid) auto
      then have "in_order ks (take p es @ v # drop p es)" by (simp add: in_order_def)
      moreover have "set (take p es @ v # drop p es) \<subseteq> insert v (set es)"
        using set_take_subset [of p es] set_drop_subset [of p es] by auto
      then have "resolved ks (take p es @ v # drop p es)"
        using found res unfolding resolved_def by blast
      moreover have "fst ` set (take p es @ v # drop p es) = insert (fst v) (fst ` set es)"
      proof -
        have "set (take p es) \<union> set (drop p es) = set es"
          by (metis append_take_drop_id set_append)
        then show ?thesis by auto
      qed
      ultimately show ?thesis
        using False True ub cmp by (auto simp: tree_insert_unique_def q_def)
    next
      case False
      moreover from qin lo have "?f q \<le> ?f v" by blast
      ultimately have "?f q = ?f v" by simp
      with inj qfound found have "fst q = fst v" by (rule seq_of_inject)
      with qes have "fst v \<in> fst ` set es" by (metis imageI)
      then have "insert (fst v) (fst ` set es) = fst ` set es" by (rule insert_absorb)
      with False \<open>p \<noteq> 0\<close> ub cmp res ord show ?thesis
        by (auto simp: tree_insert_unique_def q_def)
    qed
  qed
qed

section \<open>Searching the Store\<close>

lemma resolved_nth: "resolved ks es \<Longrightarrow> j < length es \<Longrightarrow> keys_find ks (fst (es ! j)) \<noteq> None"
  by (simp add: resolved_def)

lemma lower_bound_pos_present:
  assumes "resolved ks es" "in_order ks es" "j < length es"
  shows "lower_bound_pos (compare_helper ks) es (fst (es ! j)) = Some j"
proof -
  have "takeWhile (\<lambda>e. seq_of ks (fst e) < seq_of ks (fst (es ! j))) es = take j es"
    using assms(2,3) unfolding in_order_def by (rule sorted_takeWhile_less)
  with lower_bound_pos_scan [OF resolved_nth [OF assms(1,3)] assms(1)] assms(3)
  show ?thesis by simp
qed

lemma upper_bound_pos_present:
  assumes "resolved ks es" "in_order ks es" "j < length es"
  shows "upper_bound_pos (compare_helper ks) es (fst (es ! j)) = Some (Suc j)"
proof -
  have "takeWhile (\<lambda>e. \<not> seq_of ks (fst (es ! j)) < seq_of ks (fst e)) es = take (Suc j) es"
    using assms(2,3) unfolding in_order_def by (rule sorted_takeWhile_le)
  with upper_bound_pos_scan [OF resolved_nth [OF assms(1,3)] assms(1)] assms(3)
  show ?thesis by (simp add: min_absorb2 Suc_leI)
qed

lemma lower_bound_pos_new:
  assumes "keys_find ks k \<noteq> None" "resolved ks es"
    and "\<forall>e \<in> set es. seq_of ks (fst e) < seq_of ks k"
  shows "lower_bound_pos (compare_helper ks) es k = Some (length es)"
proof -
  have "takeWhile (\<lambda>e. seq_of ks (fst e) < seq_of ks k) es = es"
    using assms(3) by (rule takeWhile_all)
  with lower_bound_pos_scan [OF assms(1,2)] show ?thesis by (simp only:)
qed

lemma lower_bound_pos_lost:
  "keys_find ks k = None \<Longrightarrow> es \<noteq> [] \<Longrightarrow> lower_bound_pos (compare_helper ks) es k = None"
  by (cases es) (simp_all add: compare_helper_lost_right)

lemma upper_bound_pos_lost:
  "keys_find ks k = None \<Longrightarrow> es \<noteq> [] \<Longrightarrow> upper_bound_pos (compare_helper ks) es k = None"
  by (cases es) (simp_all add: compare_helper_lost_left)

lemma tree_find_present:
  assumes "resolved ks es" "in_order ks es" "j < length es"
  shows "tree_find (compare_helper ks) es (fst (es ! j)) = Some j"
  using assms resolved_nth [OF assms(1,3)]
  by (simp add: tree_find_def lower_bound_pos_present compare_helper_found)

lemma tree_find_lost:
  "keys_find ks k = None \<Longrightarrow> es \<noteq> [] \<Longrightarrow> tree_find (compare_helper ks) es k = None"
  by (simp add: tree_find_def lower_bound_pos_lost)

lemma tree_at_present:
  assumes "resolved ks es" "in_order ks es" "j < length es"
  shows "tree_at (compare_helper ks) es (fst (es ! j)) = Inr (snd (es ! j))"
  using assms resolved_nth [OF assms(1,3)]
  by (simp add: tree_at_def lower_bound_pos_present compare_helper_found)

lemma tree_at_lost:
  "keys_find ks k = None \<Longrightarrow> es \<noteq> [] \<Longrightarrow>
   tree_at (compare_helper ks) es k = Inl Undefined_Behaviour"
  by (simp add: tree_at_def lower_bound_pos_lost)

lemma tree_at_empty: "tree_at cmp [] k = Inl Out_Of_Range"
  by (simp add: tree_at_def)

lemma tree_subscript_present:
  assumes "resolved ks es" "in_order ks es" "j < length es"
  shows "tree_subscript (compare_helper ks) d es (fst (es ! j)) = Some (es, j)"
  using assms resolved_nth [OF assms(1,3)]
  by (simp add: tree_subscript_def lower_bound_pos_present compare_helper_found)

lemma tree_subscript_new:
  assumes "keys_find ks k \<noteq> None" "resolved ks es"
    and "\<forall>e \<in> set es. seq_of ks (fst e) < seq_of ks k"
  shows "tree_subscript (compare_helper ks) d es k = Some (es @ [(k, d)], length es)"
  using assms by (simp add: tree_subscript_def lower_bound_pos_new)

lemma tree_erase_key_present:
  assumes "resolved ks es" "in_order ks es" "j < length es"
  shows "tree_erase_key (compare_helper ks) es (fst (es ! j)) =
           Some (take j es @ drop (Suc j) es, 1, j)"
  using assms
  by (simp add: tree_erase_key_def tree_equal_range_def lower_bound_pos_present
      upper_bound_pos_present)

lemma tree_erase_key_lost:
  "keys_find ks k = None \<Longrightarrow> es \<noteq> [] \<Longrightarrow> tree_erase_key (compare_helper ks) es k = None"
  by (simp add: tree_erase_key_def tree_equal_range_def lower_bound_pos_lost)

lemma tree_insert_range_sound:
  assumes "\<forall>v \<in> set vs. keys_find ks (fst v) \<noteq> None" "resolved ks es" "in_order ks es"
    and "distinct (map snd ks)"
  shows "\<exists>es'. tree_insert_range (compare_helper ks) es vs = Some es'
           \<and> resolved ks es' \<and> in_order ks es'
           \<and> fst ` set es' = fst ` set vs \<union> fst ` set es"
  using assms
proof (induction vs arbitrary: es)
  case Nil
  then show ?case by simp
next
  case (Cons v vs)
  from Cons.prems obtain es1 pos b where
    step: "tree_insert_unique (compare_helper ks) es v = Some (es1, pos, b)"
    and es1: "resolved ks es1" "in_order ks es1" "fst ` set es1 = insert (fst v) (fst ` set es)"
    using tree_insert_unique_sound [of ks v es] by auto
  from Cons.prems have "\<forall>v \<in> set vs. keys_find ks (fst v) \<noteq> None" by simp
  from Cons.IH [OF this es1(1,2) Cons.prems(4)] obtain es' where
    "tree_insert_range (compare_helper ks) es1 vs = Some es'"
    "resolved ks es'" "in_order ks es'" "fst ` set es' = fst ` set vs \<union> fst ` set es1"
    by blast
  with step es1(3) show ?case by auto
qed

section \<open>The Ledger and the counter\<close>

lemma keys_find_None_iff: "keys_find ks k = None \<longleftrightarrow> k \<notin> fst ` set ks"
  by (simp add: keys_find_def map_of_eq_None_iff)

lemma keys_insert_new: "k \<notin> fst ` set ks \<Longrightarrow> keys_insert ks (k, i) = ks @ [(k, i)]"
  by (simp add: keys_insert_def keys_find_None_iff)

lemma keys_insert_present: "k \<in> fst ` set ks \<Longrightarrow> keys_insert ks (k, i) = ks"
  by (simp add: keys_insert_def keys_find_None_iff)

lemma keys_find_append_old:
  "keys_find ks k \<noteq> None \<Longrightarrow> keys_find (ks @ ext) k = keys_find ks k"
  by (auto simp: keys_find_def map_add_def split: option.splits)

lemma keys_find_append_new:
  "k \<notin> fst ` set ks \<Longrightarrow> keys_find (ks @ [(k, i)]) k = Some i"
  by (simp add: keys_find_def map_add_def map_of_eq_None_iff [THEN iffD2] split: option.splits)

lemma seq_of_append_old: "keys_find ks k \<noteq> None \<Longrightarrow> seq_of (ks @ ext) k = seq_of ks k"
  by (simp add: seq_of_def keys_find_append_old)

lemma seq_of_append_new: "k \<notin> fst ` set ks \<Longrightarrow> seq_of (ks @ [(k, i)]) k = i"
  by (simp add: seq_of_def keys_find_append_new)

lemma seq_of_member:
  "distinct (map fst ks) \<Longrightarrow> (k, i) \<in> set ks \<Longrightarrow> seq_of ks k = i"
  by (simp add: seq_of_def keys_find_def)

lemma resolved_append: "resolved ks es \<Longrightarrow> resolved (ks @ ext) es"
  by (auto simp: resolved_def keys_find_append_old)

lemma in_order_append: "resolved ks es \<Longrightarrow> in_order (ks @ ext) es = in_order ks es"
proof -
  assume "resolved ks es"
  then have "map (\<lambda>e. seq_of (ks @ ext) (fst e)) es = map (\<lambda>e. seq_of ks (fst e)) es"
    by (simp add: resolved_def seq_of_append_old)
  then show ?thesis by (simp only: in_order_def)
qed

lemma word_less_succ: "(n :: Index) + 1 \<noteq> 0 \<Longrightarrow> n < n + 1"
  by (metis add.commute add.right_inverse inc_less_eq_self_iff_eq verit_comp_simplify1(3))

lemma unat_succ: "unat (n :: Index) + 1 < 2 ^ 64 \<Longrightarrow> unat (n + 1) = unat n + 1"
  using unat_add_lem [of n 1] by simp

lemma succ_nonzero: "unat (n :: Index) + 1 < 2 ^ 64 \<Longrightarrow> n + 1 \<noteq> 0"
  using unat_succ [of n] by (metis Suc_eq_plus1 nat.simps(3) unat_0)

section \<open>Object states\<close>

lemma put_same [simp]:
  "keys_m (put h a ks es n a) = ks"
  "entries (map_m (put h a ks es n a)) = es"
  "index_m (put h a ks es n a) = n"
  "compare_m (put h a ks es n a) = compare_m (h a)"
  "key_comp (map_m (put h a ks es n a)) = key_comp (map_m (h a))"
  by (simp_all add: put_def)

lemma put_other [simp]: "b \<noteq> a \<Longrightarrow> put h a ks es n b = h b"
  by (simp add: put_def)

lemma put_put [simp]: "put (put h a ks es n) a ks' es' n' = put h a ks' es' n'"
  by (simp add: put_def)

lemma put_id: "put h a (keys_m (h a)) (entries (map_m (h a))) (index_m (h a)) = h"
  by (simp add: put_def)

lemma add_index_put:
  "add_index h a k =
     put h a (keys_insert (keys_m (h a)) (k, index_m (h a))) (entries (map_m (h a)))
       (index_m (h a) + 1)"
  by (simp add: add_index_def put_def)

lemma remove_index_put:
  "remove_index h a k =
     put h a (keys_erase (keys_m (h a)) k) (entries (map_m (h a))) (index_m (h a))"
  by (simp add: remove_index_def put_def)

lemma set_entries_put:
  "set_entries h a es = put h a (keys_m (h a)) es (index_m (h a))"
  by (simp add: set_entries_def put_def)

lemma clear_put: "clear h a = put h a [] [] (index_m (h a))"
  by (cases "h a") (simp add: clear_def set_entries_def put_def)

lemma bound_to_put [simp]: "bound_to (put h a ks es n) a b = bound_to h a b"
  by (simp add: bound_to_def)

lemma key_compare_put:
  "bound_to h a a \<Longrightarrow> key_compare (put h a ks es n) a = compare_helper ks"
  by (simp add: key_compare_def bound_to_def)

lemma key_compare_self: "bound_to h a a \<Longrightarrow> key_compare h a = compare_helper (keys_m (h a))"
  by (simp add: key_compare_def bound_to_def)

lemma invar_put:
  "bound_to h a a \<Longrightarrow>
   invar (put h a ks es n) a \<longleftrightarrow>
     ledger_ok ks n \<and> fst ` set ks = fst ` set es \<and> in_order ks es"
  by (simp add: invar_def correspondence_def)

lemma invar_new: "invar (ordered_map_new h a) a"
  by (simp add: invar_def ordered_map_new_def bound_to_def ledger_ok_def correspondence_def
      in_order_def)

lemma invarD:
  assumes "invar h a"
  shows "bound_to h a a" "ledger_ok (keys_m (h a)) (index_m (h a))"
    "fst ` set (keys_m (h a)) = fst ` set (entries (map_m (h a)))"
    "in_order (keys_m (h a)) (entries (map_m (h a)))"
    "resolved (keys_m (h a)) (entries (map_m (h a)))"
proof -
  show "bound_to h a a" "ledger_ok (keys_m (h a)) (index_m (h a))"
    "in_order (keys_m (h a)) (entries (map_m (h a)))"
    using assms by (simp_all add: invar_def)
  show c: "fst ` set (keys_m (h a)) = fst ` set (entries (map_m (h a)))"
    using assms by (simp add: invar_def correspondence_def)
  show "resolved (keys_m (h a)) (entries (map_m (h a)))"
    unfolding resolved_def keys_find_None_iff c by blast
qed

lemma seq_of_below:
  assumes "ledger_ok ks n" "k \<in> fst ` set ks"
  shows "seq_of ks k < n"
proof -
  from assms(2) obtain i where "(k, i) \<in> set ks" by force
  moreover from this assms(1) have "seq_of ks k = i"
    by (simp add: ledger_ok_def seq_of_member)
  ultimately show ?thesis using assms(1) by (auto simp: ledger_ok_def)
qed

lemma ledger_ok_append:
  assumes "ledger_ok ks n" "k \<notin> fst ` set ks" "unat n + 1 < 2 ^ 64"
  shows "ledger_ok (ks @ [(k, n)]) (n + 1)"
proof -
  have lt: "n < n + 1" using assms(3) by (intro word_less_succ succ_nonzero)
  have "\<forall>e \<in> set ks. snd e < n" using assms(1) by (simp add: ledger_ok_def)
  then have "n \<notin> snd ` set ks" by auto
  moreover have "\<forall>e \<in> set ks. snd e < n + 1"
    using \<open>\<forall>e \<in> set ks. snd e < n\<close> lt by (blast intro: less_trans)
  ultimately show ?thesis using assms(1,2) lt by (simp add: ledger_ok_def)
qed

lemma ledger_ok_counter:
  assumes "ledger_ok ks n" "unat n + 1 < 2 ^ 64"
  shows "ledger_ok ks (n + 1)"
proof -
  have lt: "n < n + 1" using assms(2) by (intro word_less_succ succ_nonzero)
  have "\<forall>e \<in> set ks. snd e < n" using assms(1) by (simp add: ledger_ok_def)
  then have "\<forall>e \<in> set ks. snd e < n + 1" using lt by (blast intro: less_trans)
  then show ?thesis using assms(1) by (simp add: ledger_ok_def)
qed

section \<open>\<open>insert\<close> and \<open>operator[]\<close>, step by step\<close>

text \<open>Inserting a key the Ledger does not hold.\<close>

lemma store_below_new:
  assumes "invar h a" "k \<notin> fst ` set (keys_m (h a))"
  shows "\<forall>e \<in> set (entries (map_m (h a))).
           seq_of (keys_m (h a) @ [(k, index_m (h a))]) (fst e)
             < seq_of (keys_m (h a) @ [(k, index_m (h a))]) k"
proof
  fix e assume e: "e \<in> set (entries (map_m (h a)))"
  let ?ks = "keys_m (h a)"
  from e invarD(3) [OF assms(1)] have mem: "fst e \<in> fst ` set ?ks" by blast
  then have "keys_find ?ks (fst e) \<noteq> None" by (simp add: keys_find_None_iff)
  then have "seq_of (?ks @ [(k, index_m (h a))]) (fst e) = seq_of ?ks (fst e)"
    by (rule seq_of_append_old)
  moreover have "seq_of ?ks (fst e) < index_m (h a)"
    using invarD(2) [OF assms(1)] mem by (rule seq_of_below)
  moreover have "seq_of (?ks @ [(k, index_m (h a))]) k = index_m (h a)"
    using assms(2) by (rule seq_of_append_new)
  ultimately show "seq_of (?ks @ [(k, index_m (h a))]) (fst e)
      < seq_of (?ks @ [(k, index_m (h a))]) k" by simp
qed

lemma insert_value_new:
  assumes "invar h a" "fst v \<notin> fst ` set (keys_m (h a))"
  shows "insert_value h a v =
           Inr (put h a (keys_m (h a) @ [(fst v, index_m (h a))])
                  (entries (map_m (h a)) @ [v]) (index_m (h a) + 1),
                length (entries (map_m (h a))), True)"
proof -
  let ?ks = "keys_m (h a) @ [(fst v, index_m (h a))]"
  have "keys_find ?ks (fst v) \<noteq> None"
    using assms(2) by (simp add: keys_find_append_new)
  moreover have "resolved ?ks (entries (map_m (h a)))"
    using invarD(5) [OF assms(1)] by (rule resolved_append)
  ultimately have "tree_insert_unique (compare_helper ?ks) (entries (map_m (h a))) v =
      Some (entries (map_m (h a)) @ [v], length (entries (map_m (h a))), True)"
    using store_below_new [OF assms] by (rule tree_insert_unique_new)
  then show ?thesis
    using assms(2) invarD(1) [OF assms(1)]
    by (simp add: insert_value_def add_index_put keys_insert_new key_compare_put
        set_entries_put)
qed

lemma find_position:
  assumes "k \<in> fst ` set es"
  obtains j where "j < length es" "fst (es ! j) = k"
  using assms by (auto simp: in_set_conv_nth)

lemma insert_value_present:
  assumes "invar h a" "j < length (entries (map_m (h a)))"
    and "fst (entries (map_m (h a)) ! j) = fst v"
  shows "insert_value h a v =
           Inr (put h a (keys_m (h a)) (entries (map_m (h a))) (index_m (h a) + 1), j, False)"
proof -
  have "fst v \<in> fst ` set (keys_m (h a))"
    unfolding invarD(3) [OF assms(1)] using assms(2,3) by (metis imageI nth_mem)
  moreover have "tree_insert_unique (compare_helper (keys_m (h a))) (entries (map_m (h a))) v =
      Some (entries (map_m (h a)), j, False)"
    using invarD(5,4) [OF assms(1)] assms(2,3) by (rule tree_insert_unique_present)
  ultimately show ?thesis
    using invarD(1) [OF assms(1)]
    by (simp add: insert_value_def add_index_put keys_insert_present key_compare_put
        set_entries_put)
qed

lemma invar_after_new:
  assumes "invar h a" "k \<notin> fst ` set (keys_m (h a))" "unat (index_m (h a)) + 1 < 2 ^ 64"
  shows "invar (put h a (keys_m (h a) @ [(k, index_m (h a))])
                 (entries (map_m (h a)) @ [(k, x)]) (index_m (h a) + 1)) a"
proof -
  let ?ks = "keys_m (h a) @ [(k, index_m (h a))]"
  let ?es = "entries (map_m (h a))"
  have "ledger_ok ?ks (index_m (h a) + 1)"
    using invarD(2) [OF assms(1)] assms(2,3) by (rule ledger_ok_append)
  moreover have "fst ` set ?ks = fst ` set (?es @ [(k, x)])"
    using invarD(3) [OF assms(1)] by simp
  moreover have "in_order ?ks (?es @ [(k, x)])"
  proof -
    have "in_order ?ks ?es"
      using invarD(4,5) [OF assms(1)] by (simp add: in_order_append)
    with store_below_new [OF assms(1,2)] show ?thesis
      by (simp add: in_order_def sorted_wrt_append)
  qed
  ultimately show ?thesis using invarD(1) [OF assms(1)] by (simp add: invar_put)
qed

lemma invar_after_present:
  assumes "invar h a" "unat (index_m (h a)) + 1 < 2 ^ 64"
  shows "invar (put h a (keys_m (h a)) (entries (map_m (h a))) (index_m (h a) + 1)) a"
  using invarD [OF assms(1)] ledger_ok_counter [OF invarD(2) [OF assms(1)] assms(2)]
  by (simp add: invar_put)

text \<open>\<open>operator[]\<close>.\<close>

lemma subscript_new:
  assumes "invar h a" "k \<notin> fst ` set (keys_m (h a))"
  shows "subscript d h a k =
           Inr (put h a (keys_m (h a) @ [(k, index_m (h a))])
                  (entries (map_m (h a)) @ [(k, d)]) (index_m (h a) + 1),
                length (entries (map_m (h a))))"
proof -
  let ?ks = "keys_m (h a) @ [(k, index_m (h a))]"
  have "keys_find ?ks k \<noteq> None"
    using assms(2) by (simp add: keys_find_append_new)
  moreover have "resolved ?ks (entries (map_m (h a)))"
    using invarD(5) [OF assms(1)] by (rule resolved_append)
  ultimately have "tree_subscript (compare_helper ?ks) d (entries (map_m (h a))) k =
      Some (entries (map_m (h a)) @ [(k, d)], length (entries (map_m (h a))))"
    using store_below_new [OF assms] by (rule tree_subscript_new)
  then show ?thesis
    using assms(2) invarD(1) [OF assms(1)]
    by (simp add: subscript_def add_index_put keys_insert_new key_compare_put
        set_entries_put)
qed

lemma subscript_present:
  assumes "invar h a" "j < length (entries (map_m (h a)))"
  shows "subscript d h a (fst (entries (map_m (h a)) ! j)) =
           Inr (put h a (keys_m (h a)) (entries (map_m (h a))) (index_m (h a) + 1), j)"
proof -
  let ?k = "fst (entries (map_m (h a)) ! j)"
  have "?k \<in> fst ` set (keys_m (h a))"
    unfolding invarD(3) [OF assms(1)] using assms(2) by (metis imageI nth_mem)
  moreover have "tree_subscript (compare_helper (keys_m (h a))) d (entries (map_m (h a))) ?k =
      Some (entries (map_m (h a)), j)"
    using invarD(5,4) [OF assms(1)] assms(2) by (rule tree_subscript_present)
  ultimately show ?thesis
    using invarD(1) [OF assms(1)]
    by (simp add: subscript_def add_index_put keys_insert_present key_compare_put
        set_entries_put)
qed

section \<open>Erasing\<close>

lemma keys_find_filter:
  "keys_find (filter (\<lambda>e. fst e \<notin> X) ks) k = (if k \<in> X then None else keys_find ks k)"
  by (induction ks) (auto simp: keys_find_def)

lemma seq_of_filter: "k \<notin> X \<Longrightarrow> seq_of (filter (\<lambda>e. fst e \<notin> X) ks) k = seq_of ks k"
  by (simp add: seq_of_def keys_find_filter)

lemma keys_erase_filter: "keys_erase ks k = filter (\<lambda>e. fst e \<notin> {k}) ks"
  by (simp add: keys_erase_def)

lemma remove_indexes_put:
  "remove_indexes h a xs =
     put h a (filter (\<lambda>e. fst e \<notin> set xs) (keys_m (h a))) (entries (map_m (h a)))
       (index_m (h a))"
proof (induction xs arbitrary: h)
  case Nil
  show ?case by (simp add: remove_indexes_def put_id)
next
  case (Cons x xs)
  have "remove_indexes h a (x # xs) = remove_indexes (remove_index h a x) a xs"
    by (simp add: remove_indexes_def)
  also have "\<dots> = put h a (filter (\<lambda>e. fst e \<notin> set xs) (keys_erase (keys_m (h a)) x))
      (entries (map_m (h a))) (index_m (h a))"
    by (simp add: Cons.IH remove_index_put)
  also have "filter (\<lambda>e. fst e \<notin> set xs) (keys_erase (keys_m (h a)) x) =
      filter (\<lambda>e. fst e \<notin> set (x # xs)) (keys_m (h a))"
    by (auto simp: keys_erase_def intro: filter_cong)
  finally show ?case .
qed

lemma in_order_distinct:
  assumes "in_order ks es"
  shows "distinct (map fst es)"
proof -
  have "sorted_wrt (<) (map (seq_of ks) (map fst es))"
    using assms by (simp add: in_order_def comp_def)
  then have "distinct (map (seq_of ks) (map fst es))"
    by (simp add: strict_sorted_iff)
  then show ?thesis
    using distinct_map [of "seq_of ks" "map fst es"] by blast
qed

text \<open>Erasing the positions \<open>first\<close> .. \<open>lst\<close> of a Store with distinct keys.\<close>

lemma erased_keys_apart:
  assumes "distinct (map fst es)" "first \<le> lst"
  shows "fst ` set (take first es @ drop lst es) =
           fst ` set es - fst ` set (take (lst - first) (drop first es))"
proof -
  let ?A = "take first es" and ?M = "take (lst - first) (drop first es)" and ?B = "drop lst es"
  have split: "es = ?A @ ?M @ ?B"
    using assms(2) by (metis append_take_drop_id drop_drop le_add_diff_inverse2)
  have "distinct (map fst (?A @ ?M @ ?B))" using assms(1) split by simp
  then have "fst ` set ?A \<inter> fst ` set ?M = {}" "fst ` set ?M \<inter> fst ` set ?B = {}"
    by auto
  moreover have "fst ` set es = fst ` set ?A \<union> fst ` set ?M \<union> fst ` set ?B"
    by (subst split) (simp add: image_Un Un_assoc)
  ultimately show ?thesis by (auto simp: image_Un)
qed

lemma filter_keys_image:
  "fst ` set (filter (\<lambda>e. fst e \<notin> X) ks) = fst ` set ks - X"
  by force

lemma invar_after_erase:
  assumes "invar h a" "first \<le> lst"
  defines "X \<equiv> fst ` set (take (lst - first) (drop first (entries (map_m (h a)))))"
  shows "invar (put h a (filter (\<lambda>e. fst e \<notin> X) (keys_m (h a)))
                 (take first (entries (map_m (h a))) @ drop lst (entries (map_m (h a))))
                 (index_m (h a))) a"
proof -
  let ?ks = "keys_m (h a)" and ?es = "entries (map_m (h a))"
  let ?ks' = "filter (\<lambda>e. fst e \<notin> X) ?ks"
  let ?es' = "take first ?es @ drop lst ?es"
  have dist: "distinct (map fst ?es)" using invarD(4) [OF assms(1)] by (rule in_order_distinct)
  have keys': "fst ` set ?es' = fst ` set ?es - X"
    unfolding X_def using dist assms(2) by (rule erased_keys_apart)
  have "ledger_ok ?ks' (index_m (h a))"
    using invarD(2) [OF assms(1)] by (simp add: ledger_ok_def distinct_map_filter)
  moreover have "fst ` set ?ks' = fst ` set ?es'"
    unfolding keys' filter_keys_image using invarD(3) [OF assms(1)] by simp
  moreover have "in_order ?ks' ?es'"
  proof -
    have "\<forall>e \<in> set ?es'. fst e \<notin> X" using keys' by blast
    then have "map (\<lambda>e. seq_of ?ks' (fst e)) ?es' = map (\<lambda>e. seq_of ?ks (fst e)) ?es'"
      by (simp add: seq_of_filter)
    moreover have "sorted_wrt (<) (map (\<lambda>e. seq_of ?ks (fst e)) ?es')"
    proof -
      have "sorted_wrt (<) (map (\<lambda>e. seq_of ?ks (fst e)) ?es)"
        using invarD(4) [OF assms(1)] by (simp add: in_order_def)
      then have "sorted_wrt (<) (map (\<lambda>e. seq_of ?ks (fst e))
          (take first ?es @ take (lst - first) (drop first ?es) @ drop lst ?es))"
        using assms(2)
        by (metis append_take_drop_id drop_drop le_add_diff_inverse2)
      then show ?thesis by (auto simp: sorted_wrt_append)
    qed
    ultimately show ?thesis by (simp only: in_order_def)
  qed
  ultimately show ?thesis using invarD(1) [OF assms(1)] by (simp add: invar_put)
qed

section \<open>The \<open>erase\<close> members; a run of \<open>add_index\<close>\<close>

lemma take_one_drop: "j < length es \<Longrightarrow> take (Suc 0) (drop j es) = [es ! j]"
  by (simp add: Cons_nth_drop_Suc [symmetric])

lemma erase_pos_put:
  assumes "j < length (entries (map_m (h a)))"
  shows "erase_pos h a j =
           Inr (put h a (filter (\<lambda>e. fst e \<notin> {fst (entries (map_m (h a)) ! j)}) (keys_m (h a)))
                  (take j (entries (map_m (h a))) @ drop (Suc j) (entries (map_m (h a))))
                  (index_m (h a)), j)"
  using assms
  by (simp add: erase_pos_def Let_def remove_index_put set_entries_put keys_erase_filter)

lemma erase_range_put:
  assumes "first \<le> lst" "lst \<le> length (entries (map_m (h a)))"
  shows "erase_range h a first lst =
           Inr (put h a
                  (filter (\<lambda>e. fst e \<notin> fst ` set (take (lst - first)
                      (drop first (entries (map_m (h a)))))) (keys_m (h a)))
                  (take first (entries (map_m (h a))) @ drop lst (entries (map_m (h a))))
                  (index_m (h a)), first)"
  using assms
  by (simp add: erase_range_def Let_def remove_indexes_put set_entries_put not_less)

lemma erase_key_present:
  assumes "invar h a" "j < length (entries (map_m (h a)))"
  shows "erase_key h a (Object (fst (entries (map_m (h a)) ! j))) =
           Inr (put h a (filter (\<lambda>e. fst e \<notin> {fst (entries (map_m (h a)) ! j)}) (keys_m (h a)))
                  (take j (entries (map_m (h a))) @ drop (Suc j) (entries (map_m (h a))))
                  (index_m (h a)), 1)"
proof -
  have "tree_erase_key (compare_helper (keys_m (h a))) (entries (map_m (h a)))
      (fst (entries (map_m (h a)) ! j)) =
      Some (take j (entries (map_m (h a))) @ drop (Suc j) (entries (map_m (h a))), 1, j)"
    using invarD(5,4) [OF assms(1)] assms(2) by (rule tree_erase_key_present)
  then show ?thesis
    using invarD(1) [OF assms(1)]
    by (simp add: erase_key_def referent_def destroyed_def key_compare_self set_entries_put
        remove_index_put keys_erase_filter)
qed

text \<open>
  \<open>m.erase(it->first)\<close>: the Store destroys the entry the reference points into, and
  line 232 reads the key of that entry.
\<close>

lemma erase_key_aliased:
  assumes "invar h a" "j < length (entries (map_m (h a)))"
  shows "erase_key h a (Entry_Key j) = Inl Undefined_Behaviour"
proof -
  have "tree_erase_key (compare_helper (keys_m (h a))) (entries (map_m (h a)))
      (fst (entries (map_m (h a)) ! j)) =
      Some (take j (entries (map_m (h a))) @ drop (Suc j) (entries (map_m (h a))), 1, j)"
    using invarD(5,4) [OF assms(1)] assms(2) by (rule tree_erase_key_present)
  then show ?thesis
    using invarD(1) [OF assms(1)] assms(2)
    by (simp add: erase_key_def referent_def destroyed_def key_compare_self)
qed

lemma erase_key_dangling:
  "length (entries (map_m (h a))) \<le> p \<Longrightarrow> erase_key h a (Entry_Key p) = Inl Undefined_Behaviour"
  by (simp add: erase_key_def referent_def)

lemma erase_key_empty:
  assumes "entries (map_m (h a)) = []"
  shows "erase_key h a (Object k) = Inr (h, 0)"
proof -
  have "set_entries h a [] = h"
    using put_id [of h a] assms by (simp add: set_entries_put)
  with assms show ?thesis
    by (simp add: erase_key_def referent_def tree_erase_key_def tree_equal_range_def)
qed

lemma erase_key_lost:
  assumes "invar h a" "k \<notin> fst ` set (keys_m (h a))" "entries (map_m (h a)) \<noteq> []"
  shows "erase_key h a (Object k) = Inl Undefined_Behaviour"
  using assms invarD(1) [OF assms(1)]
  by (simp add: erase_key_def referent_def key_compare_self tree_erase_key_lost
      keys_find_None_iff)

lemma invar_after_erase_one:
  assumes "invar h a" "j < length (entries (map_m (h a)))"
  shows "invar (put h a (filter (\<lambda>e. fst e \<notin> {fst (entries (map_m (h a)) ! j)}) (keys_m (h a)))
                 (take j (entries (map_m (h a))) @ drop (Suc j) (entries (map_m (h a))))
                 (index_m (h a))) a"
  using invar_after_erase [OF assms(1), of j "Suc j"] assms(2)
  by (simp add: take_one_drop)

text \<open>The Ledger after a run of \<open>add_index\<close>.\<close>

lemma add_indexes_put:
  assumes "ledger_ok (keys_m (h a)) (index_m (h a))"
    and "unat (index_m (h a)) + length xs < 2 ^ 64"
  shows "\<exists>ext. add_indexes h a xs =
             put h a (keys_m (h a) @ ext) (entries (map_m (h a)))
               (index_m (h a) + of_nat (length xs))
           \<and> ledger_ok (keys_m (h a) @ ext) (index_m (h a) + of_nat (length xs))
           \<and> fst ` set (keys_m (h a) @ ext) = fst ` set (keys_m (h a)) \<union> set xs
           \<and> unat (index_m (h a) + of_nat (length xs)) = unat (index_m (h a)) + length xs
           \<and> (\<forall>e \<in> set ext. index_m (h a) \<le> snd e)"
  using assms
proof (induction xs arbitrary: h)
  case Nil
  then show ?case by (auto simp: add_indexes_def put_id intro!: exI [of _ "[]"])
next
  case (Cons x xs)
  let ?ks = "keys_m (h a)" and ?es = "entries (map_m (h a))" and ?n = "index_m (h a)"
  from Cons.prems(2) have one: "unat ?n + 1 < 2 ^ 64" by simp
  obtain e1 where e1: "keys_insert ?ks (x, ?n) = ?ks @ e1"
    and ok1: "ledger_ok (?ks @ e1) (?n + 1)"
    and keys1: "fst ` set (?ks @ e1) = insert x (fst ` set ?ks)"
    and fl1: "\<forall>e \<in> set e1. ?n \<le> snd e"
  proof (cases "x \<in> fst ` set ?ks")
    case True
    then have "keys_insert ?ks (x, ?n) = ?ks @ []" by (simp add: keys_insert_present)
    moreover have "ledger_ok (?ks @ []) (?n + 1)"
      using ledger_ok_counter [OF Cons.prems(1) one] by simp
    moreover have "fst ` set (?ks @ []) = insert x (fst ` set ?ks)" using True by auto
    ultimately show ?thesis by (rule that) simp
  next
    case False
    then have "keys_insert ?ks (x, ?n) = ?ks @ [(x, ?n)]" by (rule keys_insert_new)
    moreover have "ledger_ok (?ks @ [(x, ?n)]) (?n + 1)"
      using Cons.prems(1) False one by (rule ledger_ok_append)
    moreover have "fst ` set (?ks @ [(x, ?n)]) = insert x (fst ` set ?ks)" by simp
    ultimately show ?thesis by (rule that) simp
  qed
  define h1 where "h1 = put h a (?ks @ e1) ?es (?n + 1)"
  have step: "add_index h a x = h1" by (simp add: add_index_put e1 h1_def)
  have u1: "unat (?n + 1) = unat ?n + 1" using one by (rule unat_succ)
  have "ledger_ok (keys_m (h1 a)) (index_m (h1 a))" using ok1 by (simp add: h1_def)
  moreover have "unat (index_m (h1 a)) + length xs < 2 ^ 64"
    using Cons.prems(2) u1 by (simp add: h1_def)
  ultimately obtain e2 where
    r: "add_indexes h1 a xs =
         put h1 a (keys_m (h1 a) @ e2) (entries (map_m (h1 a)))
           (index_m (h1 a) + of_nat (length xs))"
    and ok2: "ledger_ok (keys_m (h1 a) @ e2) (index_m (h1 a) + of_nat (length xs))"
    and keys2: "fst ` set (keys_m (h1 a) @ e2) = fst ` set (keys_m (h1 a)) \<union> set xs"
    and u2: "unat (index_m (h1 a) + of_nat (length xs)) = unat (index_m (h1 a)) + length xs"
    and fl2: "\<forall>e \<in> set e2. index_m (h1 a) \<le> snd e"
    using Cons.IH [of h1] by blast
  have "?n \<le> ?n + 1" using one by (intro less_imp_le word_less_succ succ_nonzero)
  with fl2 have fl2': "\<forall>e \<in> set e2. ?n \<le> snd e"
    by (auto simp: h1_def intro: order_trans)
  have n': "?n + 1 + of_nat (length xs) = ?n + of_nat (length (x # xs))"
    by simp
  have "add_indexes h a (x # xs) = add_indexes h1 a xs"
    by (simp add: add_indexes_def step)
  then have "add_indexes h a (x # xs) =
      put h a (?ks @ (e1 @ e2)) ?es (?n + of_nat (length (x # xs)))"
    using r by (simp add: h1_def add.assoc)
  moreover have "ledger_ok (?ks @ (e1 @ e2)) (?n + of_nat (length (x # xs)))"
    using ok2 by (simp add: h1_def add.assoc)
  moreover have "fst ` set (?ks @ (e1 @ e2)) = fst ` set ?ks \<union> set (x # xs)"
    using keys2 keys1 by (simp add: h1_def)
  moreover have "unat (?n + of_nat (length (x # xs))) = unat ?n + length (x # xs)"
    using u2 u1 by (simp add: h1_def add.assoc)
  moreover have "\<forall>e \<in> set (e1 @ e2). ?n \<le> snd e"
    using fl1 fl2' by auto
  ultimately show ?case by blast
qed

section \<open>Every call that returns keeps the invariants\<close>

lemma ledger_step_put_same [simp]: "ledger_step h (put h a (keys_m (h a)) es n) a"
  by (simp add: ledger_step_def)

lemma ledger_step_put_filter [simp]: "ledger_step h (put h a (filter P (keys_m (h a))) es n) a"
  by (simp add: ledger_step_def)

lemma ledger_step_put_append:
  "\<forall>e \<in> set ext. index_m (h a) \<le> snd e \<Longrightarrow> ledger_step h (put h a (keys_m (h a) @ ext) es n) a"
  by (auto simp: ledger_step_def)

lemma ledger_step_refl [simp]: "ledger_step h h a"
  by (simp add: ledger_step_def)

lemma insert_value_invar:
  assumes "invar h a" "unat (index_m (h a)) + 1 < 2 ^ 64"
  shows "\<exists>h' pos b. insert_value h a v = Inr (h', pos, b) \<and> invar h' a
           \<and> index_m (h' a) = index_m (h a) + 1 \<and> ledger_step h h' a"
proof (cases "fst v \<in> fst ` set (keys_m (h a))")
  case True
  then have "fst v \<in> fst ` set (entries (map_m (h a)))"
    using invarD(3) [OF assms(1)] by simp
  then obtain j where "j < length (entries (map_m (h a)))" "fst (entries (map_m (h a)) ! j) = fst v"
    by (rule find_position)
  with assms(1) have "insert_value h a v =
      Inr (put h a (keys_m (h a)) (entries (map_m (h a))) (index_m (h a) + 1), j, False)"
    by (rule insert_value_present)
  with invar_after_present [OF assms] show ?thesis by auto
next
  case False
  have "ledger_step h (put h a (keys_m (h a) @ [(fst v, index_m (h a))])
             (entries (map_m (h a)) @ [v]) (index_m (h a) + 1)) a"
    by (rule ledger_step_put_append) simp
  moreover
  from assms(1) False have "insert_value h a v =
      Inr (put h a (keys_m (h a) @ [(fst v, index_m (h a))])
             (entries (map_m (h a)) @ [v]) (index_m (h a) + 1),
           length (entries (map_m (h a))), True)"
    by (rule insert_value_new)
  ultimately show ?thesis
    using invar_after_new [OF assms(1) False assms(2), of "snd v"] by auto
qed

lemma insert_hint_eq:
  "insert_hint h a hint v =
     (if length (entries (map_m (h a))) < hint then Inl Undefined_Behaviour
      else case insert_value h a v of
             Inl e \<Rightarrow> Inl e
           | Inr (h', pos, b) \<Rightarrow> Inr (h', pos))"
  by (simp add: insert_hint_def insert_value_def add_index_put Let_def
      split: option.splits)

lemma subscript_invar:
  assumes "invar h a" "unat (index_m (h a)) + 1 < 2 ^ 64"
  shows "\<exists>h' pos. subscript d h a k = Inr (h', pos) \<and> invar h' a
           \<and> index_m (h' a) = index_m (h a) + 1 \<and> ledger_step h h' a"
proof (cases "k \<in> fst ` set (keys_m (h a))")
  case True
  then have "k \<in> fst ` set (entries (map_m (h a)))"
    using invarD(3) [OF assms(1)] by simp
  then obtain j where j: "j < length (entries (map_m (h a)))" "fst (entries (map_m (h a)) ! j) = k"
    by (rule find_position)
  from subscript_present [OF assms(1) j(1), of d] j(2)
  have "subscript d h a k =
      Inr (put h a (keys_m (h a)) (entries (map_m (h a))) (index_m (h a) + 1), j)"
    by simp
  with invar_after_present [OF assms] show ?thesis by auto
next
  case False
  have "ledger_step h (put h a (keys_m (h a) @ [(k, index_m (h a))])
             (entries (map_m (h a)) @ [(k, d)]) (index_m (h a) + 1)) a"
    by (rule ledger_step_put_append) simp
  moreover
  from assms(1) False have "subscript d h a k =
      Inr (put h a (keys_m (h a) @ [(k, index_m (h a))])
             (entries (map_m (h a)) @ [(k, d)]) (index_m (h a) + 1),
           length (entries (map_m (h a))))"
    by (rule subscript_new)
  ultimately show ?thesis
    using invar_after_new [OF assms(1) False assms(2), of d] by auto
qed

lemma insert_range_invar:
  assumes "invar h a" "unat (index_m (h a)) + length vs < 2 ^ 64"
  shows "\<exists>h'. insert_range h a vs = Inr h' \<and> invar h' a
           \<and> unat (index_m (h' a)) = unat (index_m (h a)) + length vs
           \<and> ledger_step h h' a"
proof -
  let ?ks = "keys_m (h a)" and ?es = "entries (map_m (h a))" and ?n = "index_m (h a)"
  from add_indexes_put [where h = h and a = a and xs = "map fst vs"]
    invarD(2) [OF assms(1)] assms(2)
  obtain ext where
    h1: "add_indexes h a (map fst vs) = put h a (?ks @ ext) ?es (?n + of_nat (length vs))"
    and ok: "ledger_ok (?ks @ ext) (?n + of_nat (length vs))"
    and keys: "fst ` set (?ks @ ext) = fst ` set ?ks \<union> fst ` set vs"
    and cnt: "unat (?n + of_nat (length vs)) = unat ?n + length vs"
    and fl: "\<forall>e \<in> set ext. ?n \<le> snd e"
    by auto
  have "\<forall>v \<in> set vs. keys_find (?ks @ ext) (fst v) \<noteq> None"
    unfolding keys_find_None_iff keys by blast
  moreover have "resolved (?ks @ ext) ?es"
    using invarD(5) [OF assms(1)] by (rule resolved_append)
  moreover have "in_order (?ks @ ext) ?es"
    using invarD(4,5) [OF assms(1)] by (simp add: in_order_append)
  moreover have "distinct (map snd (?ks @ ext))"
    using ok by (simp add: ledger_ok_def)
  ultimately obtain es' where
    ins: "tree_insert_range (compare_helper (?ks @ ext)) ?es vs = Some es'"
    and es': "in_order (?ks @ ext) es'" "fst ` set es' = fst ` set vs \<union> fst ` set ?es"
    using tree_insert_range_sound [of vs "?ks @ ext" ?es] by blast
  have "insert_range h a vs = Inr (put h a (?ks @ ext) es' (?n + of_nat (length vs)))"
    using ins invarD(1) [OF assms(1)]
    by (simp add: insert_range_def h1 key_compare_put set_entries_put)
  moreover have "invar (put h a (?ks @ ext) es' (?n + of_nat (length vs))) a"
    using ok es' keys invarD(1,3) [OF assms(1)] by (simp add: invar_put Un_commute)
  moreover have "ledger_step h (put h a (?ks @ ext) es' (?n + of_nat (length vs))) a"
    using fl by (rule ledger_step_put_append)
  ultimately show ?thesis using cnt by simp
qed

lemma invar_clear: "invar h a \<Longrightarrow> invar (clear h a) a"
  by (simp add: clear_put invar_put invarD(1) ledger_ok_def in_order_def)

lemma exec_invar:
  assumes "invar h a" "unat (index_m (h a)) + attempts c < 2 ^ 64" "exec d h a c = Inr h'"
  shows "invar h' a \<and> unat (index_m (h' a)) = unat (index_m (h a)) + attempts c
           \<and> ledger_step h h' a"
proof (cases c)
  case (Insert v)
  with assms(2) have one: "unat (index_m (h a)) + 1 < 2 ^ 64" by simp
  from insert_value_invar [OF assms(1) one, of v] assms(3) Insert unat_succ [OF one]
  show ?thesis by (auto simp: state_of_def)
next
  case (Insert_Hint hint v)
  with assms(2) have one: "unat (index_m (h a)) + 1 < 2 ^ 64" by simp
  from insert_value_invar [OF assms(1) one, of v] assms(3) Insert_Hint unat_succ [OF one]
  show ?thesis by (auto simp: state_of_def insert_hint_eq split: if_splits)
next
  case (Insert_Range vs)
  with insert_range_invar [OF assms(1), of vs] assms(2,3) show ?thesis by auto
next
  case (Emplace k x)
  with assms(2) have one: "unat (index_m (h a)) + 1 < 2 ^ 64" by simp
  from insert_value_invar [OF assms(1) one, of "(k, x)"] assms(3) Emplace unat_succ [OF one]
  show ?thesis by (auto simp: state_of_def emplace_def)
next
  case (Emplace_Hint hint k x)
  with assms(2) have one: "unat (index_m (h a)) + 1 < 2 ^ 64" by simp
  from insert_value_invar [OF assms(1) one, of "(k, x)"] assms(3) Emplace_Hint
    unat_succ [OF one]
  show ?thesis
    by (auto simp: state_of_def emplace_hint_def insert_hint_eq split: if_splits)
next
  case (Subscript k)
  with assms(2) have one: "unat (index_m (h a)) + 1 < 2 ^ 64" by simp
  from subscript_invar [OF assms(1) one, of d k] assms(3) Subscript unat_succ [OF one]
  show ?thesis by (auto simp: state_of_def)
next
  case (Erase_Pos pos)
  show ?thesis
  proof (cases "pos < length (entries (map_m (h a)))")
    case True
    from erase_pos_put [where h = h and a = a and j = pos] True
      invar_after_erase_one [OF assms(1) True] assms(3) Erase_Pos
    show ?thesis by (auto simp: state_of_def)
  next
    case False
    with assms(3) Erase_Pos show ?thesis by (simp add: state_of_def erase_pos_def)
  qed
next
  case (Erase_Range first lst)
  show ?thesis
  proof (cases "first \<le> lst \<and> lst \<le> length (entries (map_m (h a)))")
    case True
    then have fl: "first \<le> lst" "lst \<le> length (entries (map_m (h a)))" by simp_all
    from erase_range_put [where h = h and a = a and first = first and lst = lst] fl
      invar_after_erase [OF assms(1) fl(1)] assms(3) Erase_Range
    show ?thesis by (auto simp: state_of_def)
  next
    case False
    with assms(3) Erase_Range show ?thesis
      by (auto simp: state_of_def erase_range_def)
  qed
next
  case (Erase_Key r)
  show ?thesis
  proof (cases r)
    case (Entry_Key p)
    have "erase_key h a (Entry_Key p) = Inl Undefined_Behaviour"
    proof (cases "p < length (entries (map_m (h a)))")
      case True
      with assms(1) show ?thesis by (rule erase_key_aliased)
    next
      case False
      then show ?thesis by (simp add: erase_key_dangling)
    qed
    with assms(3) Erase_Key Entry_Key show ?thesis by (simp add: state_of_def)
  next
    case (Object k)
    show ?thesis
    proof (cases "entries (map_m (h a)) = []")
      case True
      from erase_key_empty [where h = h and a = a and k = k] True assms(1,3) Erase_Key Object
      show ?thesis
        by (simp add: state_of_def)
    next
      case False
      show ?thesis
      proof (cases "k \<in> fst ` set (keys_m (h a))")
        case True
        then have "k \<in> fst ` set (entries (map_m (h a)))"
          using invarD(3) [OF assms(1)] by simp
        then obtain j where j: "j < length (entries (map_m (h a)))"
          "fst (entries (map_m (h a)) ! j) = k" by (rule find_position)
        from erase_key_present [OF assms(1) j(1)] invar_after_erase_one [OF assms(1) j(1)]
          j(2) assms(3) Erase_Key Object
        show ?thesis by (auto simp: state_of_def)
      next
        case notin: False
        from erase_key_lost [OF assms(1) notin False] assms(3) Erase_Key Object show ?thesis
          by (simp add: state_of_def)
      qed
    qed
  qed
next
  case Clear
  with assms(1,3) invar_clear [of h a] show ?thesis
    by (auto simp: clear_put ledger_step_def)
qed

lemma ledger_step_trans:
  assumes "ledger_step h h1 a" "ledger_step h1 h2 a" "index_m (h a) \<le> index_m (h1 a)"
  shows "ledger_step h h2 a"
  using assms unfolding ledger_step_def by (meson order_trans)

lemma run_invar:
  assumes "invar h a" "unat (index_m (h a)) + total_attempts cs < 2 ^ 64"
    and "run d h a cs = Inr h'"
  shows "invar h' a \<and> unat (index_m (h' a)) = unat (index_m (h a)) + total_attempts cs
           \<and> ledger_step h h' a"
  using assms
proof (induction cs arbitrary: h)
  case Nil
  then show ?case by simp
next
  case (Cons c cs)
  from Cons.prems(3) obtain h1 where h1: "exec d h a c = Inr h1" "run d h1 a cs = Inr h'"
    by (auto split: sum.splits)
  from Cons.prems(2) have "unat (index_m (h a)) + attempts c < 2 ^ 64" by simp
  from exec_invar [OF Cons.prems(1) this h1(1)]
  have 1: "invar h1 a" "unat (index_m (h1 a)) = unat (index_m (h a)) + attempts c"
    "ledger_step h h1 a" by simp_all
  with Cons.prems(2) have "unat (index_m (h1 a)) + total_attempts cs < 2 ^ 64" by simp
  from Cons.IH [OF 1(1) this h1(2)]
  have 2: "invar h' a" "unat (index_m (h' a)) = unat (index_m (h1 a)) + total_attempts cs"
    "ledger_step h1 h' a" by simp_all
  have "index_m (h a) \<le> index_m (h1 a)" using 1(2) by (simp add: word_le_nat_alt)
  with 1(3) 2(3) have "ledger_step h h' a" by (rule ledger_step_trans)
  with 1(2) 2(1,2) show ?case by simp
qed

section \<open>Histories that start at a constructor\<close>

text \<open>The defining equations of the model, for evaluating it on concrete inputs.\<close>

lemmas eval_defs =
  ordered_map_from_def ordered_map_new_def raw_storage_def put_def state_of_def
  insert_value_def insert_hint_def insert_range_def emplace_def emplace_hint_def subscript_def
  at_def iterate_def end_pos_def empty_map_def size_map_def keys_def clear_def
  erase_pos_def erase_range_def erase_key_def referent_def destroyed_def find_key_def
  count_key_def
  lower_bound_def upper_bound_def equal_range_def
  add_index_def add_indexes_def remove_index_def remove_indexes_def set_entries_def
  key_compare_def keys_find_def keys_insert_def keys_erase_def compare_helper_def
  tree_find_def tree_insert_unique_def tree_equal_range_def tree_erase_key_def tree_at_def
  tree_subscript_def Let_def

lemma insert_each_run: "insert_each h a vs = run d h a (map Insert vs)"
  by (induction vs arbitrary: h) (auto simp: state_of_def split: sum.splits)

lemma total_attempts_inserts [simp]: "total_attempts (map Insert vs) = length vs"
  by (induction vs) simp_all

lemma run_append:
  "run d h a (cs @ cs') =
     (case run d h a cs of Inl e \<Rightarrow> Inl e | Inr h' \<Rightarrow> run d h' a cs')"
  by (induction cs arbitrary: h) (auto split: sum.splits)

lemma total_attempts_append [simp]:
  "total_attempts (cs @ cs') = total_attempts cs + total_attempts cs'"
  by (induction cs) simp_all

lemma index_new [simp]: "index_m (ordered_map_new h a a) = 0"
  by (simp add: ordered_map_new_def)

lemma reachable_invar:
  assumes "ordered_map_from h a init = Inr h0" "run d h0 a cs = Inr h'"
    and "length init + total_attempts cs < 2 ^ 64"
  shows "invar h' a \<and> unat (index_m (h' a)) = length init + total_attempts cs"
proof -
  have r0: "run d (ordered_map_new h a) a (map Insert init) = Inr h0"
    using assms(1) by (simp add: ordered_map_from_def insert_each_run [where d = d])
  have "unat (index_m (ordered_map_new h a a)) + total_attempts (map Insert init) < 2 ^ 64"
    using assms(3) by simp
  from run_invar [OF invar_new this r0]
  have 0: "invar h0 a" "unat (index_m (h0 a)) = length init" by simp_all
  with assms(3) have "unat (index_m (h0 a)) + total_attempts cs < 2 ^ 64" by simp
  from run_invar [OF 0(1) this assms(2)] 0(2) show ?thesis by simp
qed

lemma invar_sizes:
  assumes "invar h a"
  shows "length (keys_m (h a)) = length (entries (map_m (h a)))"
    and "card (fst ` set (entries (map_m (h a)))) = length (entries (map_m (h a)))"
proof -
  have dk: "distinct (map fst (keys_m (h a)))"
    using invarD(2) [OF assms] by (simp add: ledger_ok_def)
  have de: "distinct (map fst (entries (map_m (h a))))"
    using invarD(4) [OF assms] by (rule in_order_distinct)
  from distinct_card [OF de]
  show c: "card (fst ` set (entries (map_m (h a)))) = length (entries (map_m (h a)))" by simp
  from distinct_card [OF dk]
  have "card (fst ` set (keys_m (h a))) = length (keys_m (h a))" by simp
  with c invarD(3) [OF assms]
  show "length (keys_m (h a)) = length (entries (map_m (h a)))" by simp
qed

section \<open>Insertion order\<close>

lemma insert_each_fresh:
  assumes "invar h a" "distinct (map fst vs)"
    and "fst ` set vs \<inter> fst ` set (keys_m (h a)) = {}"
    and "unat (index_m (h a)) + length vs < 2 ^ 64"
  shows "\<exists>h'. insert_each h a vs = Inr h' \<and> iterate h' a = iterate h a @ vs"
  using assms
proof (induction vs arbitrary: h)
  case Nil
  then show ?case by simp
next
  case (Cons v vs)
  let ?h1 = "put h a (keys_m (h a) @ [(fst v, index_m (h a))])
      (entries (map_m (h a)) @ [v]) (index_m (h a) + 1)"
  from Cons.prems(3) have new: "fst v \<notin> fst ` set (keys_m (h a))" by auto
  from Cons.prems(4) have one: "unat (index_m (h a)) + 1 < 2 ^ 64" by simp
  have step: "insert_value h a v = Inr (?h1, length (entries (map_m (h a))), True)"
    using Cons.prems(1) new by (rule insert_value_new)
  have inv1: "invar ?h1 a"
    using invar_after_new [OF Cons.prems(1) new one, of "snd v"] by simp
  have "fst ` set vs \<inter> fst ` set (keys_m (?h1 a)) = {}"
    using Cons.prems(2,3) by auto
  moreover have "unat (index_m (?h1 a)) + length vs < 2 ^ 64"
    using Cons.prems(4) unat_succ [OF one] by simp
  moreover have "distinct (map fst vs)" using Cons.prems(2) by simp
  ultimately obtain h' where "insert_each ?h1 a vs = Inr h'" "iterate h' a = iterate ?h1 a @ vs"
    using Cons.IH [OF inv1] by blast
  with step show ?case by (simp add: iterate_def)
qed

text \<open>
  With repeated keys: \<open>rev (remdups (rev ks))\<close> lists every key of \<open>ks\<close> once, at the place
  of its first occurrence, and \<open>map_of vs\<close> gives a key the value of its first entry in
  \<open>vs\<close>.
\<close>

lemma first_occurrences_snoc:
  "rev (remdups (rev (ks @ [k]))) =
     (if k \<in> set ks then rev (remdups (rev ks)) else rev (remdups (rev ks)) @ [k])"
  by simp

lemma insert_each_append:
  "insert_each h a (vs @ ws) =
     (case insert_each h a vs of Inl e \<Rightarrow> Inl e | Inr h' \<Rightarrow> insert_each h' a ws)"
  by (induction vs arbitrary: h) (auto split: sum.splits)

lemma insert_each_first:
  assumes "length vs < 2 ^ 64"
  shows "\<exists>h'. insert_each (ordered_map_new h a) a vs = Inr h' \<and> invar h' a
           \<and> unat (index_m (h' a)) = length vs
           \<and> map fst (iterate h' a) = rev (remdups (rev (map fst vs)))
           \<and> map_of (iterate h' a) = map_of vs"
  using assms
proof (induction vs rule: rev_induct)
  case Nil
  show ?case by (simp add: invar_new) (simp add: ordered_map_new_def iterate_def)
next
  case (snoc v vs)
  from snoc obtain h1 where h1: "insert_each (ordered_map_new h a) a vs = Inr h1"
    and inv: "invar h1 a" and cnt: "unat (index_m (h1 a)) = length vs"
    and keys: "map fst (iterate h1 a) = rev (remdups (rev (map fst vs)))"
    and vals: "map_of (iterate h1 a) = map_of vs"
    by auto
  from snoc.prems cnt have one: "unat (index_m (h1 a)) + 1 < 2 ^ 64" by simp
  have keyset: "fst ` set (entries (map_m (h1 a))) = fst ` set vs"
    using arg_cong [OF keys, of set] by (simp add: iterate_def)
  have all: "insert_each (ordered_map_new h a) a (vs @ [v]) = state_of (insert_value h1 a v)"
    by (simp add: insert_each_append h1 state_of_def split: sum.splits prod.splits)
  show ?case
  proof (cases "fst v \<in> fst ` set vs")
    case True
    let ?h2 = "put h1 a (keys_m (h1 a)) (entries (map_m (h1 a))) (index_m (h1 a) + 1)"
    from True keyset have "fst v \<in> fst ` set (entries (map_m (h1 a)))" by simp
    then obtain j where "j < length (entries (map_m (h1 a)))"
      "fst (entries (map_m (h1 a)) ! j) = fst v" by (rule find_position)
    with inv have "insert_value h1 a v = Inr (?h2, j, False)" by (rule insert_value_present)
    then have "insert_each (ordered_map_new h a) a (vs @ [v]) = Inr ?h2"
      by (simp add: all state_of_def)
    moreover have "invar ?h2 a" using inv one by (rule invar_after_present)
    moreover have "unat (index_m (?h2 a)) = length (vs @ [v])"
      using unat_succ [OF one] cnt by simp
    moreover have "map fst (iterate ?h2 a) = rev (remdups (rev (map fst (vs @ [v]))))"
      using keys True by (simp add: iterate_def)
    moreover have "map_of (iterate ?h2 a) = map_of (vs @ [v])"
    proof -
      from True have "fst v \<in> dom (map_of vs)" by (simp add: dom_map_of_conv_image_fst)
      then have "map_of [v] ++ map_of vs = map_of vs"
        by (cases v) (auto simp: map_add_def fun_eq_iff split: option.splits)
      with vals show ?thesis by (simp add: iterate_def)
    qed
    ultimately show ?thesis by blast
  next
    case False
    let ?h2 = "put h1 a (keys_m (h1 a) @ [(fst v, index_m (h1 a))])
        (entries (map_m (h1 a)) @ [v]) (index_m (h1 a) + 1)"
    from False keyset invarD(3) [OF inv]
    have new: "fst v \<notin> fst ` set (keys_m (h1 a))" by simp
    with inv have "insert_value h1 a v = Inr (?h2, length (entries (map_m (h1 a))), True)"
      by (rule insert_value_new)
    then have "insert_each (ordered_map_new h a) a (vs @ [v]) = Inr ?h2"
      by (simp add: all state_of_def)
    moreover have "invar ?h2 a"
      using invar_after_new [OF inv new one, of "snd v"] by simp
    moreover have "unat (index_m (?h2 a)) = length (vs @ [v])"
      using unat_succ [OF one] cnt by simp
    moreover have "map fst (iterate ?h2 a) = rev (remdups (rev (map fst (vs @ [v]))))"
      using keys False by (simp add: iterate_def)
    moreover have "map_of (iterate ?h2 a) = map_of (vs @ [v])"
      using vals by (simp add: iterate_def)
    ultimately show ?thesis by blast
  qed
qed

text \<open>
  C1. Any sequence of fewer than \<open>2^64\<close> insertions (the range of the counter \<open>index_\<close>)
  into a freshly constructed map: every \<open>insert\<close> returns, and the iteration from
  \<open>begin()\<close> to \<open>end()\<close> visits each inserted key once, in the order of the first
  insertions, with the value of its first insertion. When no key is inserted twice, the
  iteration visits exactly the inserted entries in the order of insertion. The constructor
  from a range builds the same object.
\<close>

theorem insertion_order:
  assumes "length vs < 2 ^ 64"
  shows "\<exists>h'. insert_each (ordered_map_new h a) a vs = Inr h'
           \<and> ordered_map_from h a vs = Inr h'
           \<and> map fst (iterate h' a) = rev (remdups (rev (map fst vs)))
           \<and> map_of (iterate h' a) = map_of vs
           \<and> (distinct (map fst vs) \<longrightarrow> iterate h' a = vs)"
proof -
  from insert_each_first [OF assms, of h a] obtain h' where
    h': "insert_each (ordered_map_new h a) a vs = Inr h'"
    and order: "map fst (iterate h' a) = rev (remdups (rev (map fst vs)))"
      "map_of (iterate h' a) = map_of vs"
    by blast
  have "iterate h' a = vs" if d: "distinct (map fst vs)"
  proof -
    have "fst ` set vs \<inter> fst ` set (keys_m (ordered_map_new h a a)) = {}"
      by (simp add: ordered_map_new_def)
    moreover have "unat (index_m (ordered_map_new h a a)) + length vs < 2 ^ 64"
      using assms by simp
    ultimately obtain h2 where "insert_each (ordered_map_new h a) a vs = Inr h2"
      "iterate h2 a = iterate (ordered_map_new h a) a @ vs"
      using insert_each_fresh [OF invar_new d] by blast
    with h' show ?thesis by (simp add: iterate_def ordered_map_new_def)
  qed
  with h' order show ?thesis by (simp add: ordered_map_from_def)
qed

theorem insertion_order_witness:
  "length [(''b'', 1 :: int), (''a'', 2), (''b'', 5), (''c'', 3)] < 2 ^ 64
   \<and> (\<exists>h'. insert_each (ordered_map_new raw_storage 0) 0
              [(''b'', 1 :: int), (''a'', 2), (''b'', 5), (''c'', 3)] = Inr h'
          \<and> map fst (iterate h' 0) = [''b'', ''a'', ''c''])
   \<and> length [(''b'', 1 :: int), (''a'', 2), (''c'', 3)] < 2 ^ 64
   \<and> distinct (map fst [(''b'', 1 :: int), (''a'', 2), (''c'', 3)])
   \<and> (\<exists>h'. insert_each (ordered_map_new raw_storage 0) 0
              [(''b'', 1 :: int), (''a'', 2), (''c'', 3)] = Inr h'
          \<and> iterate h' 0 = [(''b'', 1), (''a'', 2), (''c'', 3)])"
proof -
  have 1: "length [(''b'', 1 :: int), (''a'', 2), (''b'', 5), (''c'', 3)] < 2 ^ 64" by simp
  have 2: "length [(''b'', 1 :: int), (''a'', 2), (''c'', 3)] < 2 ^ 64" by simp
  have 3: "distinct (map fst [(''b'', 1 :: int), (''a'', 2), (''c'', 3)])" by simp
  from insertion_order [OF 1, of raw_storage 0] insertion_order [OF 2, of raw_storage 0] 1 2 3
  show ?thesis by auto
qed

section \<open>Correspondence of Ledger and Store\<close>

text \<open>
  What holds: an object built by a constructor (\<open>init\<close> is the range or initialiser list;
  the default constructor is \<open>init = []\<close>) and taken through mutating calls each of which
  has a defined outcome, with fewer than \<open>2^64\<close> evaluations of \<open>index_++\<close> in total, has the
  same keys in Ledger and Store, and \<open>size()\<close> is the number of distinct keys, of Ledger
  entries and of Store entries.
\<close>

lemma defined_calls_keep_correspondence:
  assumes "ordered_map_from h a init = Inr h0" "run d h0 a cs = Inr h'"
    and "length init + total_attempts cs < 2 ^ 64"
  shows "fst ` set (keys_m (h' a)) = fst ` set (iterate h' a)
         \<and> size_map h' a = card (fst ` set (iterate h' a))
         \<and> size_map h' a = length (keys_m (h' a))
         \<and> size_map h' a = length (iterate h' a)"
proof -
  from reachable_invar [OF assms] have inv: "invar h' a" by simp
  from invarD(3) [OF inv] invar_sizes [OF inv] show ?thesis
    by (simp add: iterate_def size_map_def)
qed

text \<open>
  C2. The claim fails for \<open>erase(const key_type&)\<close>, in two ways.

  On the map that holds the single key "b", where the correspondence holds,
  \<open>erase("a")\<close> makes the Store compare "b" with "a", which the Ledger does not
  hold: the call has no defined outcome, so nothing holds after it.

  On the map that holds "b" and "a", \<open>erase(it->first)\<close> with \<open>it = find("a")\<close>: line 230
  removes the entry of "a" from the Store, which destroys the key the reference points
  to, and line 232 reads that key. Up to that read the object is in the state line 230 left:
  one Store entry, two Ledger entries, the correspondence broken and \<open>size()\<close> different
  from the number of Ledger entries; a read that matches no Ledger entry leaves it there.
\<close>

theorem erase_by_key_breaks_correspondence:
  "run 0 (ordered_map_new raw_storage 0) 0 [Insert (''b'', 1 :: int)] =
     Inr (put (ordered_map_new raw_storage 0) 0 [(''b'', 0)] [(''b'', 1)] 1)
   \<and> correspondence (put (ordered_map_new raw_storage 0) 0 [(''b'', 0)] [(''b'', 1 :: int)] 1) 0
   \<and> erase_key (put (ordered_map_new raw_storage 0) 0 [(''b'', 0)] [(''b'', 1 :: int)] 1) 0
         (Object ''a'') = Inl Undefined_Behaviour
   \<and> run 0 (ordered_map_new raw_storage 0) 0 [Insert (''b'', 1 :: int), Insert (''a'', 2)] =
       Inr (put (ordered_map_new raw_storage 0) 0 [(''b'', 0), (''a'', 1)]
              [(''b'', 1), (''a'', 2)] 2)
   \<and> correspondence (put (ordered_map_new raw_storage 0) 0 [(''b'', 0), (''a'', 1)]
         [(''b'', 1 :: int), (''a'', 2)] 2) 0
   \<and> find_key (put (ordered_map_new raw_storage 0) 0 [(''b'', 0), (''a'', 1)]
         [(''b'', 1 :: int), (''a'', 2)] 2) 0 ''a'' = Inr 1
   \<and> erase_key (put (ordered_map_new raw_storage 0) 0 [(''b'', 0), (''a'', 1)]
         [(''b'', 1 :: int), (''a'', 2)] 2) 0 (Entry_Key 1) = Inl Undefined_Behaviour
   \<and> tree_erase_key
         (key_compare (put (ordered_map_new raw_storage 0) 0 [(''b'', 0), (''a'', 1)]
            [(''b'', 1 :: int), (''a'', 2)] 2) 0)
         [(''b'', 1 :: int), (''a'', 2)] ''a'' = Some ([(''b'', 1)], 1, 1)
   \<and> \<not> correspondence (set_entries (put (ordered_map_new raw_storage 0) 0
         [(''b'', 0), (''a'', 1)] [(''b'', 1 :: int), (''a'', 2)] 2) 0 [(''b'', 1)]) 0
   \<and> size_map (set_entries (put (ordered_map_new raw_storage 0) 0
         [(''b'', 0), (''a'', 1)] [(''b'', 1 :: int), (''a'', 2)] 2) 0 [(''b'', 1)]) 0 = 1
   \<and> length (keys_m (set_entries (put (ordered_map_new raw_storage 0) 0
         [(''b'', 0), (''a'', 1)] [(''b'', 1 :: int), (''a'', 2)] 2) 0 [(''b'', 1)] 0)) = 2"
  by (simp add: eval_defs correspondence_def)

section \<open>\<open>keys()\<close>\<close>

lemma invar_keys:
  assumes "invar h a"
  shows "keys dkey h a = Inr (map fst (iterate h a))"
  using invar_sizes(1) [OF assms] by (simp add: keys_def iterate_def)

text \<open>
  What holds: in a state reached from a constructor through mutating calls each of which
  has a defined outcome (fewer than \<open>2^64\<close> evaluations of \<open>index_++\<close>), \<open>keys()\<close> returns the
  first components of the entries visited from \<open>begin()\<close> to \<open>end()\<close>, in that order.
\<close>

lemma keys_after_defined_calls:
  assumes "ordered_map_from h a init = Inr h0" "run d h0 a cs = Inr h'"
    and "length init + total_attempts cs < 2 ^ 64"
  shows "keys dkey h' a = Inr (map fst (iterate h' a))"
proof -
  from reachable_invar [OF assms] have "invar h' a" by simp
  then show ?thesis by (rule invar_keys)
qed

text \<open>
  C8. The claim fails in the states \<open>erase(const key_type&)\<close> can leave. With "b" and
  "a" in the map and \<open>it = find("a")\<close>, \<open>erase(it->first)\<close> has no defined outcome: line 232
  reads the key of the entry line 230 destroyed. In the state line 230 left, which the
  object keeps when that read matches no Ledger entry, \<open>keys_.size()\<close> is 2 and the Store has
  one entry: \<open>keys()\<close> returns "b" followed by a value-initialised key, the iteration
  visits "b" alone. With "b" alone in the map, \<open>erase("a")\<close> is undefined in the
  comparator; in the state where the Store has lost its entry and the Ledger has kept
  it, \<open>keys()\<close> returns one value-initialised key and the iteration visits nothing.
\<close>

theorem keys_differs_after_erase_by_key:
  "run 0 (ordered_map_new raw_storage 0) 0 [Insert (''b'', 1 :: int), Insert (''a'', 2)] =
     Inr (put (ordered_map_new raw_storage 0) 0 [(''b'', 0), (''a'', 1)]
            [(''b'', 1), (''a'', 2)] 2)
   \<and> keys [] (put (ordered_map_new raw_storage 0) 0 [(''b'', 0), (''a'', 1)]
         [(''b'', 1 :: int), (''a'', 2)] 2) 0 = Inr [''b'', ''a'']
   \<and> find_key (put (ordered_map_new raw_storage 0) 0 [(''b'', 0), (''a'', 1)]
         [(''b'', 1 :: int), (''a'', 2)] 2) 0 ''a'' = Inr 1
   \<and> erase_key (put (ordered_map_new raw_storage 0) 0 [(''b'', 0), (''a'', 1)]
         [(''b'', 1 :: int), (''a'', 2)] 2) 0 (Entry_Key 1) = Inl Undefined_Behaviour
   \<and> tree_erase_key
         (key_compare (put (ordered_map_new raw_storage 0) 0 [(''b'', 0), (''a'', 1)]
            [(''b'', 1 :: int), (''a'', 2)] 2) 0)
         [(''b'', 1 :: int), (''a'', 2)] ''a'' = Some ([(''b'', 1)], 1, 1)
   \<and> keys [] (set_entries (put (ordered_map_new raw_storage 0) 0
         [(''b'', 0), (''a'', 1)] [(''b'', 1 :: int), (''a'', 2)] 2) 0 [(''b'', 1)]) 0
       = Inr [''b'', []]
   \<and> map fst (iterate (set_entries (put (ordered_map_new raw_storage 0) 0
         [(''b'', 0), (''a'', 1)] [(''b'', 1 :: int), (''a'', 2)] 2) 0 [(''b'', 1)]) 0)
       = [''b'']
   \<and> erase_key (put (ordered_map_new raw_storage 0) 0 [(''b'', 0)] [(''b'', 1 :: int)] 1) 0
         (Object ''a'') = Inl Undefined_Behaviour
   \<and> keys [] (set_entries (put (ordered_map_new raw_storage 0) 0 [(''b'', 0)]
         [(''b'', 1 :: int)] 1) 0 []) 0 = Inr [[]]
   \<and> map fst (iterate (set_entries (put (ordered_map_new raw_storage 0) 0 [(''b'', 0)]
         [(''b'', 1 :: int)] 1) 0 []) 0) = []"
  by (simp add: eval_defs)

section \<open>Insertion attempts on a key that is present\<close>





section \<open>Erasing a key and inserting it again\<close>

lemma new_key_last:
  assumes "invar h a" "k \<notin> fst ` set (iterate h a)"
  shows "\<exists>h'. insert_value h a (k, x) = Inr (h', length (iterate h a), True)
           \<and> iterate h' a = iterate h a @ [(k, x)]
           \<and> seq_of (keys_m (h' a)) k = index_m (h a)
           \<and> (\<forall>e \<in> set (iterate h a). seq_of (keys_m (h' a)) (fst e) < seq_of (keys_m (h' a)) k)"
proof -
  let ?h' = "put h a (keys_m (h a) @ [(fst (k, x), index_m (h a))])
      (entries (map_m (h a)) @ [(k, x)]) (index_m (h a) + 1)"
  from assms(2) invarD(3) [OF assms(1)]
  have new: "fst (k, x) \<notin> fst ` set (keys_m (h a))" by (simp add: iterate_def)
  have "insert_value h a (k, x) = Inr (?h', length (entries (map_m (h a))), True)"
    using assms(1) new by (rule insert_value_new)
  moreover have "seq_of (keys_m (?h' a)) k = index_m (h a)"
    using new by (simp add: seq_of_append_new)
  moreover have "\<forall>e \<in> set (iterate h a).
      seq_of (keys_m (?h' a)) (fst e) < seq_of (keys_m (?h' a)) k"
    using store_below_new [OF assms(1), of k] new by (simp add: iterate_def)
  ultimately show ?thesis by (simp add: iterate_def)
qed

text \<open>
  What holds: in a state reached from a constructor by calls with a defined outcome, let
  \<open>k\<close> be the key at position \<open>j\<close>. Then \<open>erase\<close> with \<open>k\<close> held by an object outside the map
  returns 1, \<open>erase\<close> with the iterator \<open>j\<close> returns \<open>j\<close>, and both remove that entry from
  Store and Ledger. After any further calls \<open>cs'\<close> with a defined outcome that left \<open>k\<close> out
  of the map, \<open>insert\<close> of \<open>k\<close> returns \<open>true\<close> and puts the entry at the last position,
  whatever \<open>j\<close> was: \<open>k\<close> gets the value of the counter as its new sequence number, which is
  greater than that of every other key of the map. All of this with fewer than \<open>2^64\<close>
  evaluations of \<open>index_++\<close>.
\<close>

lemma reinserted_key_goes_last:
  assumes "ordered_map_from h a init = Inr h0" "run d h0 a cs = Inr h1"
    and "j < length (iterate h1 a)" "fst (iterate h1 a ! j) = k"
    and "length init + total_attempts cs + total_attempts cs' < 2 ^ 64"
  shows "\<exists>h2. erase_key h1 a (Object k) = Inr (h2, 1) \<and> erase_pos h1 a j = Inr (h2, j)
           \<and> iterate h2 a = take j (iterate h1 a) @ drop (Suc j) (iterate h1 a)
           \<and> k \<notin> fst ` set (iterate h2 a)
           \<and> (\<forall>h3. run d h2 a cs' = Inr h3 \<longrightarrow> k \<notin> fst ` set (iterate h3 a) \<longrightarrow>
                (\<exists>h4. insert_value h3 a (k, x) = Inr (h4, length (iterate h3 a), True)
                   \<and> iterate h4 a = iterate h3 a @ [(k, x)]
                   \<and> seq_of (keys_m (h4 a)) k = index_m (h3 a)
                   \<and> (\<forall>e \<in> set (iterate h3 a).
                        seq_of (keys_m (h4 a)) (fst e) < seq_of (keys_m (h4 a)) k)))"
proof -
  let ?es = "entries (map_m (h1 a))"
  let ?h2 = "put h1 a (filter (\<lambda>e. fst e \<notin> {fst (?es ! j)}) (keys_m (h1 a)))
      (take j ?es @ drop (Suc j) ?es) (index_m (h1 a))"
  from assms(5) have b1: "length init + total_attempts cs < 2 ^ 64" by simp
  from reachable_invar [OF assms(1,2) b1]
  have inv1: "invar h1 a" and cnt1: "unat (index_m (h1 a)) = length init + total_attempts cs"
    by simp_all
  from assms(3,4) have j: "j < length ?es" "fst (?es ! j) = k" by (simp_all add: iterate_def)
  have er: "erase_key h1 a (Object k) = Inr (?h2, 1)"
    using erase_key_present [OF inv1 j(1)] j(2) by simp
  have ep: "erase_pos h1 a j = Inr (?h2, j)"
    using j(1) by (rule erase_pos_put)
  have inv2: "invar ?h2 a" using inv1 j(1) by (rule invar_after_erase_one)
  have gone: "k \<notin> fst ` set (iterate ?h2 a)"
  proof -
    have "keys_m (?h2 a) = filter (\<lambda>e. fst e \<notin> {k}) (keys_m (h1 a))"
      using j(2) by simp
    then have "fst ` set (keys_m (?h2 a)) = fst ` set (keys_m (h1 a)) - {k}"
      by (simp only: filter_keys_image)
    with invarD(3) [OF inv2] show ?thesis by (simp add: iterate_def)
  qed
  have later: "\<exists>h4. insert_value h3 a (k, x) = Inr (h4, length (iterate h3 a), True)
      \<and> iterate h4 a = iterate h3 a @ [(k, x)]
      \<and> seq_of (keys_m (h4 a)) k = index_m (h3 a)
      \<and> (\<forall>e \<in> set (iterate h3 a). seq_of (keys_m (h4 a)) (fst e) < seq_of (keys_m (h4 a)) k)"
    if r: "run d ?h2 a cs' = Inr h3" and out: "k \<notin> fst ` set (iterate h3 a)" for h3
  proof -
    have "unat (index_m (?h2 a)) + total_attempts cs' < 2 ^ 64"
      using assms(5) cnt1 by simp
    from run_invar [OF inv2 this r] have "invar h3 a" by simp
    then show ?thesis using out by (rule new_key_last)
  qed
  from er ep gone later show ?thesis by (auto simp: iterate_def)
qed

text \<open>
  The scenario of the specification, with the key passed as a literal: insert "b", "a",
  "c"; \<open>erase("a")\<close>; insert "a" again.
\<close>

lemma scenario_with_separate_key:
  "run 0 (ordered_map_new raw_storage 0) 0
     [Insert (''b'', 1 :: int), Insert (''a'', 2), Insert (''c'', 3), Erase_Key (Object ''a''),
      Insert (''a'', 7)] =
     Inr (put (ordered_map_new raw_storage 0) 0 [(''b'', 0), (''c'', 2), (''a'', 3)]
            [(''b'', 1), (''c'', 3), (''a'', 7)] 4)
   \<and> keys [] (put (ordered_map_new raw_storage 0) 0 [(''b'', 0), (''c'', 2), (''a'', 3)]
         [(''b'', 1 :: int), (''c'', 3), (''a'', 7)] 4) 0 = Inr [''b'', ''c'', ''a'']"
  by (simp add: eval_defs)

text \<open>
  C6. The claim fails when the key to erase is the one an iterator gives. After the
  insertion of "b", "a", "c" and with \<open>it = find("a")\<close>, \<open>erase(it->first)\<close> has no defined
  outcome: line 230 destroys the entry of "a", line 232 reads its key (\<open>erase(it)\<close>, lines
  215-219, calls \<open>remove_index\<close> before the Store erases). Up to that read the Store is
  without "a" and the Ledger still gives "a" the number 1; when the read matches no Ledger
  entry the object stays so, and the later \<open>insert\<close> of "a" returns \<open>true\<close> at position 1:
  \<open>keys()\<close> is "b", "a", "c", the original position, not the last.
\<close>

theorem reinserted_key_returns_after_aliased_erase:
  "run 0 (ordered_map_new raw_storage 0) 0
     [Insert (''b'', 1 :: int), Insert (''a'', 2), Insert (''c'', 3)] =
     Inr (put (ordered_map_new raw_storage 0) 0 [(''b'', 0), (''a'', 1), (''c'', 2)]
            [(''b'', 1), (''a'', 2), (''c'', 3)] 3)
   \<and> find_key (put (ordered_map_new raw_storage 0) 0 [(''b'', 0), (''a'', 1), (''c'', 2)]
         [(''b'', 1 :: int), (''a'', 2), (''c'', 3)] 3) 0 ''a'' = Inr 1
   \<and> erase_key (put (ordered_map_new raw_storage 0) 0 [(''b'', 0), (''a'', 1), (''c'', 2)]
         [(''b'', 1 :: int), (''a'', 2), (''c'', 3)] 3) 0 (Entry_Key 1)
       = Inl Undefined_Behaviour
   \<and> tree_erase_key
         (key_compare (put (ordered_map_new raw_storage 0) 0 [(''b'', 0), (''a'', 1), (''c'', 2)]
            [(''b'', 1 :: int), (''a'', 2), (''c'', 3)] 3) 0)
         [(''b'', 1 :: int), (''a'', 2), (''c'', 3)] ''a'' = Some ([(''b'', 1), (''c'', 3)], 1, 1)
   \<and> insert_value (set_entries (put (ordered_map_new raw_storage 0) 0
         [(''b'', 0), (''a'', 1), (''c'', 2)] [(''b'', 1 :: int), (''a'', 2), (''c'', 3)] 3) 0
         [(''b'', 1), (''c'', 3)]) 0 (''a'', 7) =
       Inr (put (ordered_map_new raw_storage 0) 0 [(''b'', 0), (''a'', 1), (''c'', 2)]
              [(''b'', 1), (''a'', 7), (''c'', 3)] 4, 1, True)
   \<and> keys [] (put (ordered_map_new raw_storage 0) 0 [(''b'', 0), (''a'', 1), (''c'', 2)]
         [(''b'', 1 :: int), (''a'', 7), (''c'', 3)] 4) 0 = Inr [''b'', ''a'', ''c'']
   \<and> keys [] (put (ordered_map_new raw_storage 0) 0 [(''b'', 0), (''a'', 1), (''c'', 2)]
         [(''b'', 1 :: int), (''a'', 7), (''c'', 3)] 4) 0 \<noteq> Inr [''b'', ''c'', ''a'']"
  by (simp add: eval_defs)

section \<open>\<open>clear()\<close> and the counter\<close>

lemma run_prefix:
  assumes "run d h a cs = Inr h1" "run d h a (take m cs) = Inr hp"
  shows "run d hp a (drop m cs) = Inr h1"
proof -
  have "run d h a (take m cs @ drop m cs) = Inr h1" using assms(1) by simp
  then show ?thesis using assms(2) by (simp only: run_append sum.case)
qed

lemma clear_fields:
  "keys_m (clear h a a) = []" "iterate (clear h a) a = []"
  "index_m (clear h a a) = index_m (h a)"
  by (simp_all add: clear_put iterate_def)

text \<open>
  C9. \<open>clear()\<close> leaves the Ledger and the Store empty and the counter as it was. For an
  object that was default-constructed and taken through the calls \<open>cs\<close>, then cleared, then
  taken through the calls \<open>cs'\<close> (all of them returned, fewer than \<open>2^64\<close> evaluations of
  \<open>index_++\<close> in total): every sequence number in the Ledger afterwards is greater than
  every sequence number the Ledger held in any state before the \<open>clear()\<close>, that is after
  any number \<open>m\<close> of the calls \<open>cs\<close>.
\<close>

theorem clear_keeps_counter:
  assumes "run d (ordered_map_new h a) a cs = Inr h1" "run d (clear h1 a) a cs' = Inr h2"
    and "total_attempts cs + total_attempts cs' < 2 ^ 64"
  shows "keys_m (clear h1 a a) = [] \<and> iterate (clear h1 a) a = []
         \<and> index_m (clear h1 a a) = index_m (h1 a)
         \<and> (\<forall>m hp. run d (ordered_map_new h a) a (take m cs) = Inr hp \<longrightarrow>
               (\<forall>old \<in> snd ` set (keys_m (hp a)). \<forall>new \<in> snd ` set (keys_m (h2 a)). old < new))"
proof -
  let ?h0 = "ordered_map_new h a"
  have earlier: "old < new"
    if p: "run d ?h0 a (take m cs) = Inr hp"
      and old: "old \<in> snd ` set (keys_m (hp a))" and new: "new \<in> snd ` set (keys_m (h2 a))"
    for m hp old new
  proof -
    have split: "total_attempts (take m cs) + total_attempts (drop m cs) = total_attempts cs"
      using total_attempts_append [of "take m cs" "drop m cs"] by simp
    have "unat (index_m (?h0 a)) + total_attempts (take m cs) < 2 ^ 64"
      using assms(3) split by simp
    from run_invar [OF invar_new this p]
    have invp: "invar hp a" and cntp: "unat (index_m (hp a)) = total_attempts (take m cs)"
      by simp_all
    have rest: "run d hp a (drop m cs) = Inr h1" using assms(1) p by (rule run_prefix)
    have "unat (index_m (hp a)) + total_attempts (drop m cs) < 2 ^ 64"
      using assms(3) split cntp by simp
    from run_invar [OF invp this rest]
    have inv1: "invar h1 a" and cnt1: "unat (index_m (h1 a)) = total_attempts cs"
      using cntp split by simp_all
    have "unat (index_m (clear h1 a a)) + total_attempts cs' < 2 ^ 64"
      using assms(3) cnt1 by (simp add: clear_fields)
    from run_invar [OF invar_clear [OF inv1] this assms(2)]
    have "ledger_step (clear h1 a) h2 a" by simp
    with new have "index_m (h1 a) \<le> new"
      by (auto simp: ledger_step_def clear_fields)
    moreover have "index_m (hp a) \<le> index_m (h1 a)"
      using cntp cnt1 split by (simp add: word_le_nat_alt)
    moreover have "old < index_m (hp a)"
      using invarD(2) [OF invp] old by (auto simp: ledger_ok_def)
    ultimately show ?thesis by simp
  qed
  then show ?thesis by (simp add: clear_fields)
qed

theorem clear_keeps_counter_witness:
  "run 0 (ordered_map_new raw_storage 0) 0 [Insert (''b'', 1 :: int), Insert (''a'', 2)] =
     Inr (put (ordered_map_new raw_storage 0) 0 [(''b'', 0), (''a'', 1)] [(''b'', 1), (''a'', 2)] 2)
   \<and> run 0 (clear (put (ordered_map_new raw_storage 0) 0 [(''b'', 0), (''a'', 1)]
              [(''b'', 1 :: int), (''a'', 2)] 2) 0) 0 [Insert (''a'', 5)] =
     Inr (put (ordered_map_new raw_storage 0) 0 [(''a'', 2)] [(''a'', 5)] 3)
   \<and> total_attempts [Insert (''b'', 1 :: int), Insert (''a'', 2)]
         + total_attempts [Insert (''a'', 5 :: int)] < 2 ^ 64
   \<and> index_m (clear (put (ordered_map_new raw_storage 0) 0 [(''b'', 0), (''a'', 1)]
              [(''b'', 1 :: int), (''a'', 2)] 2) 0 0) = 2
   \<and> snd ` set (keys_m (put (ordered_map_new raw_storage 0) 0 [(''b'', 0), (''a'', 1)]
              [(''b'', 1 :: int), (''a'', 2)] 2 0)) = {0, 1}
   \<and> snd ` set (keys_m (put (ordered_map_new raw_storage 0) 0 [(''a'', 2)]
              [(''a'', 5 :: int)] 3 0)) = {2}
   \<and> (0 :: Index) < 2 \<and> (1 :: Index) < 2"
proof -
  let ?h1 = "put (ordered_map_new raw_storage 0) 0 [(''b'', 0), (''a'', 1)]
      [(''b'', 1 :: int), (''a'', 2)] 2"
  let ?h2 = "put (ordered_map_new raw_storage 0) 0 [(''a'', 2)] [(''a'', 5 :: int)] 3"
  have 1: "run 0 (ordered_map_new raw_storage 0) 0 [Insert (''b'', 1 :: int), Insert (''a'', 2)]
      = Inr ?h1" by (simp add: eval_defs)
  have 2: "run 0 (clear ?h1 0) 0 [Insert (''a'', 5)] = Inr ?h2" by (simp add: eval_defs)
  have 3: "total_attempts [Insert (''b'', 1 :: int), Insert (''a'', 2)]
      + total_attempts [Insert (''a'', 5 :: int)] < 2 ^ 64" by simp
  from clear_keeps_counter [OF 1 2 3] 1 2 3 show ?thesis
    by (simp add: eval_defs)
qed

section \<open>Lookups with a key that is not in the map\<close>

text \<open>
  Every search of the Store starts by comparing the searched key with a key of the map,
  and \<open>compare_helper\<close> dereferences the result of looking the searched key up in the
  Ledger. With the invariants in force and at least one entry in the map, each lookup
  member called with a key the map does not hold is therefore undefined.
\<close>

lemma absent_key_lookups:
  assumes "invar h a" "k \<notin> fst ` set (iterate h a)" "iterate h a \<noteq> []"
  shows "find_key h a k = Inl Undefined_Behaviour"
    and "count_key h a k = Inl Undefined_Behaviour"
    and "at h a k = Inl Undefined_Behaviour"
    and "erase_key h a (Object k) = Inl Undefined_Behaviour"
    and "lower_bound h a k = Inl Undefined_Behaviour"
    and "upper_bound h a k = Inl Undefined_Behaviour"
    and "equal_range h a k = Inl Undefined_Behaviour"
proof -
  from assms(2) invarD(3) [OF assms(1)]
  have lost: "keys_find (keys_m (h a)) k = None"
    by (simp add: keys_find_None_iff iterate_def)
  from assms(3) have ne: "entries (map_m (h a)) \<noteq> []" by (simp add: iterate_def)
  note cmp = key_compare_self [OF invarD(1) [OF assms(1)]]
  show f: "find_key h a k = Inl Undefined_Behaviour"
    using lost ne by (simp add: find_key_def cmp tree_find_lost)
  show "count_key h a k = Inl Undefined_Behaviour"
    using f by (simp add: count_key_def)
  show "at h a k = Inl Undefined_Behaviour"
    using lost ne by (simp add: at_def cmp tree_at_lost)
  show "erase_key h a (Object k) = Inl Undefined_Behaviour"
    using lost ne by (simp add: erase_key_def referent_def cmp tree_erase_key_lost)
  show "lower_bound h a k = Inl Undefined_Behaviour"
    using lost ne by (simp add: lower_bound_def cmp lower_bound_pos_lost)
  show "upper_bound h a k = Inl Undefined_Behaviour"
    using lost ne by (simp add: upper_bound_def cmp upper_bound_pos_lost)
  show "equal_range h a k = Inl Undefined_Behaviour"
    using lost ne by (simp add: equal_range_def cmp tree_equal_range_def lower_bound_pos_lost)
qed

text \<open>On an empty map no comparison is made: \<open>at\<close> throws, \<open>find\<close> returns \<open>end()\<close>.\<close>

lemma empty_map_lookups:
  assumes "iterate h a = []"
  shows "at h a k = Inl Out_Of_Range" and "find_key h a k = Inr (end_pos h a)"
  using assms by (simp_all add: at_def find_key_def tree_at_def tree_find_def iterate_def
      end_pos_def)

text \<open>A key of the map is found where it is.\<close>

lemma present_key_lookups:
  assumes "invar h a" "j < length (iterate h a)"
  shows "find_key h a (fst (iterate h a ! j)) = Inr j"
    and "at h a (fst (iterate h a ! j)) = Inr (snd (iterate h a ! j))"
proof -
  from assms(2) have j: "j < length (entries (map_m (h a)))" by (simp add: iterate_def)
  note cmp = key_compare_self [OF invarD(1) [OF assms(1)]]
  show "find_key h a (fst (iterate h a ! j)) = Inr j"
    using tree_find_present [OF invarD(5,4) [OF assms(1)] j]
    by (simp add: find_key_def cmp iterate_def)
  show "at h a (fst (iterate h a ! j)) = Inr (snd (iterate h a ! j))"
    using tree_at_present [OF invarD(5,4) [OF assms(1)] j]
    by (simp add: at_def cmp iterate_def)
qed

text \<open>
  The first half of the lookup round trip: after the \<open>insert\<close> of a key the map did not
  hold, \<open>find\<close> returns the position \<open>insert\<close> returned, and the entry there is the inserted
  one.
\<close>

lemma find_after_insert:
  assumes "invar h a" "k \<notin> fst ` set (iterate h a)" "unat (index_m (h a)) + 1 < 2 ^ 64"
  shows "\<exists>h' pos. insert_value h a (k, x) = Inr (h', pos, True)
           \<and> find_key h' a k = Inr pos \<and> iterate h' a ! pos = (k, x)"
proof -
  let ?h' = "put h a (keys_m (h a) @ [(k, index_m (h a))])
      (entries (map_m (h a)) @ [(k, x)]) (index_m (h a) + 1)"
  let ?n = "length (entries (map_m (h a)))"
  from assms(2) invarD(3) [OF assms(1)]
  have new: "k \<notin> fst ` set (keys_m (h a))" by (simp add: iterate_def)
  have ins: "insert_value h a (k, x) = Inr (?h', ?n, True)"
    using insert_value_new [OF assms(1), of "(k, x)"] new by simp
  have inv: "invar ?h' a" using assms(1) new assms(3) by (rule invar_after_new)
  have "find_key ?h' a (fst (iterate ?h' a ! ?n)) = Inr ?n"
    using inv by (rule present_key_lookups(1)) (simp add: iterate_def)
  then have "find_key ?h' a k = Inr ?n" by (simp add: iterate_def)
  with ins show ?thesis by (simp add: iterate_def)
qed

text \<open>
  C3. The claim fails on the map that holds the single key "b": the Ledger has no
  entry for "a", the correspondence invariant holds, and \<open>find("a")\<close> makes the Store
  call its comparator on "b" and "a", which is undefined; so are \<open>count\<close>, \<open>at\<close>,
  \<open>erase\<close>, \<open>lower_bound\<close> and \<open>upper_bound\<close> with "a".
\<close>

theorem absent_key_reaches_comparator:
  "ordered_map_from raw_storage 0 [(''b'', 1 :: int)] =
     Inr (put (ordered_map_new raw_storage 0) 0 [(''b'', 0)] [(''b'', 1)] 1)
   \<and> correspondence (put (ordered_map_new raw_storage 0) 0 [(''b'', 0)] [(''b'', 1 :: int)] 1) 0
   \<and> keys_find (keys_m (put (ordered_map_new raw_storage 0) 0 [(''b'', 0)]
        [(''b'', 1 :: int)] 1 0)) ''a'' = None
   \<and> key_compare (put (ordered_map_new raw_storage 0) 0 [(''b'', 0)] [(''b'', 1 :: int)] 1) 0
        ''b'' ''a'' = None
   \<and> find_key (put (ordered_map_new raw_storage 0) 0 [(''b'', 0)] [(''b'', 1 :: int)] 1) 0 ''a''
       = Inl Undefined_Behaviour
   \<and> count_key (put (ordered_map_new raw_storage 0) 0 [(''b'', 0)] [(''b'', 1 :: int)] 1) 0 ''a''
       = Inl Undefined_Behaviour
   \<and> at (put (ordered_map_new raw_storage 0) 0 [(''b'', 0)] [(''b'', 1 :: int)] 1) 0 ''a''
       = Inl Undefined_Behaviour
   \<and> erase_key (put (ordered_map_new raw_storage 0) 0 [(''b'', 0)] [(''b'', 1 :: int)] 1) 0
         (Object ''a'') = Inl Undefined_Behaviour
   \<and> lower_bound (put (ordered_map_new raw_storage 0) 0 [(''b'', 0)] [(''b'', 1 :: int)] 1) 0 ''a''
       = Inl Undefined_Behaviour
   \<and> upper_bound (put (ordered_map_new raw_storage 0) 0 [(''b'', 0)] [(''b'', 1 :: int)] 1) 0 ''a''
       = Inl Undefined_Behaviour"
  by (simp add: eval_defs correspondence_def)

text \<open>
  C4. In the scenario of the specification (insert "b", "a", "c"; erase "a"; insert "a")
  the call \<open>at("missing")\<close> does not throw \<open>std::out_of_range\<close>: the search compares "b"
  with "missing", which the Ledger does not hold, and that is undefined.
\<close>

theorem at_missing_is_undefined:
  "run 0 (ordered_map_new raw_storage 0) 0
     [Insert (''b'', 1 :: int), Insert (''a'', 2), Insert (''c'', 3),
      Erase_Key (Object ''a''),
      Insert (''a'', 4)] =
     Inr (put (ordered_map_new raw_storage 0) 0 [(''b'', 0), (''c'', 2), (''a'', 3)]
            [(''b'', 1), (''c'', 3), (''a'', 4)] 4)
   \<and> keys [] (put (ordered_map_new raw_storage 0) 0 [(''b'', 0), (''c'', 2), (''a'', 3)]
            [(''b'', 1 :: int), (''c'', 3), (''a'', 4)] 4) 0 = Inr [''b'', ''c'', ''a'']
   \<and> at (put (ordered_map_new raw_storage 0) 0 [(''b'', 0), (''c'', 2), (''a'', 3)]
            [(''b'', 1 :: int), (''c'', 3), (''a'', 4)] 4) 0 ''missing''
       = Inl Undefined_Behaviour
   \<and> at (put (ordered_map_new raw_storage 0) 0 [(''b'', 0), (''c'', 2), (''a'', 3)]
            [(''b'', 1 :: int), (''c'', 3), (''a'', 4)] 4) 0 ''missing''
       \<noteq> Inl Out_Of_Range"
  by (simp add: eval_defs)

text \<open>
  C5. After \<open>insert("b", 1)\<close> and \<open>insert("a", 2)\<close>, \<open>find("a")\<close> is the position of the
  entry \<open>("a", 2)\<close>. After \<open>erase("a")\<close>, which returns 1, \<open>find("a")\<close> is not \<open>end()\<close>: the
  Ledger entry of "a" is gone, the map still holds "b", and the search is undefined.
\<close>

theorem find_after_erase_is_undefined:
  "run 0 (ordered_map_new raw_storage 0) 0 [Insert (''b'', 1 :: int), Insert (''a'', 2)] =
     Inr (put (ordered_map_new raw_storage 0) 0 [(''b'', 0), (''a'', 1)] [(''b'', 1), (''a'', 2)] 2)
   \<and> find_key (put (ordered_map_new raw_storage 0) 0 [(''b'', 0), (''a'', 1)]
        [(''b'', 1 :: int), (''a'', 2)] 2) 0 ''a'' = Inr 1
   \<and> iterate (put (ordered_map_new raw_storage 0) 0 [(''b'', 0), (''a'', 1)]
        [(''b'', 1 :: int), (''a'', 2)] 2) 0 ! 1 = (''a'', 2)
   \<and> erase_key (put (ordered_map_new raw_storage 0) 0 [(''b'', 0), (''a'', 1)]
        [(''b'', 1 :: int), (''a'', 2)] 2) 0 (Object ''a'') =
       Inr (put (ordered_map_new raw_storage 0) 0 [(''b'', 0)] [(''b'', 1)] 2, 1)
   \<and> find_key (put (ordered_map_new raw_storage 0) 0 [(''b'', 0)] [(''b'', 1 :: int)] 2) 0 ''a''
       = Inl Undefined_Behaviour
   \<and> find_key (put (ordered_map_new raw_storage 0) 0 [(''b'', 0)] [(''b'', 1 :: int)] 2) 0 ''a''
       \<noteq> Inr (end_pos (put (ordered_map_new raw_storage 0) 0 [(''b'', 0)] [(''b'', 1 :: int)] 2) 0)"
  by (simp add: eval_defs)

section \<open>\<open>swap\<close>\<close>

lemma swap_with_this:
  "a \<noteq> b \<Longrightarrow>
   swap_with h a b a = (h a)\<lparr>keys_m := keys_m (h b), compare_m := compare_m (h b), map_m := map_m (h b)\<rparr>"
  by (cases "h a") (simp add: swap_with_def swap_keys_m_def swap_compare_m_def swap_map_m_def)

lemma swap_with_other:
  "a \<noteq> b \<Longrightarrow>
   swap_with h a b b = (h b)\<lparr>keys_m := keys_m (h a), compare_m := compare_m (h a), map_m := map_m (h a)\<rparr>"
  by (cases "h b") (simp add: swap_with_def swap_keys_m_def swap_compare_m_def swap_map_m_def)

text \<open>
  C10. \<open>swap\<close> between two objects whose comparators point to their own Ledgers leaves
  each object with both of its comparators (the member \<open>compare_\<close> and the copy inside
  \<open>map_\<close>) pointing to the Ledger of the other object, while the Ledger contents and the
  Store entries have changed places: no object is bound to its own Ledger any more, and
  the Store of \<open>a\<close>, which now holds the entries that were in \<open>b\<close>, is ordered through the
  Ledger contents that were in \<open>a\<close>.
\<close>

theorem swap_crosses_comparators:
  assumes "a \<noteq> b" "bound_to h a a" "bound_to h b b"
  shows "bound_to (swap_with h a b) a b \<and> bound_to (swap_with h a b) b a
         \<and> \<not> bound_to (swap_with h a b) a a \<and> \<not> bound_to (swap_with h a b) b b
         \<and> keys_m (swap_with h a b a) = keys_m (h b)
         \<and> keys_m (swap_with h a b b) = keys_m (h a)
         \<and> entries (map_m (swap_with h a b a)) = entries (map_m (h b))
         \<and> entries (map_m (swap_with h a b b)) = entries (map_m (h a))
         \<and> key_compare (swap_with h a b) a = compare_helper (keys_m (h a))
         \<and> key_compare (swap_with h a b) b = compare_helper (keys_m (h b))"
  using assms
  by (simp add: swap_with_this swap_with_other bound_to_def key_compare_def)

theorem swap_crosses_comparators_witness:
  "(0::nat) \<noteq> 1
   \<and> bound_to (ordered_map_new (ordered_map_new (raw_storage :: (string, int) heap) 0) 1) 0 0
   \<and> bound_to (ordered_map_new (ordered_map_new (raw_storage :: (string, int) heap) 0) 1) 1 1
   \<and> bound_to (swap_with (ordered_map_new (ordered_map_new
         (raw_storage :: (string, int) heap) 0) 1) 0 1) 0 1
   \<and> \<not> bound_to (swap_with (ordered_map_new (ordered_map_new
         (raw_storage :: (string, int) heap) 0) 1) 0 1) 0 0"
proof -
  let ?h = "ordered_map_new (ordered_map_new (raw_storage :: (string, int) heap) 0) 1"
  have 1: "(0::nat) \<noteq> 1" by simp
  have 2: "bound_to ?h 0 0" by (simp add: ordered_map_new_def bound_to_def)
  have 3: "bound_to ?h 1 1" by (simp add: ordered_map_new_def bound_to_def)
  from swap_crosses_comparators [OF 1 2 3] 1 2 3 show ?thesis by simp
qed

end
